theory Spec2Isabelle
  imports Complex_Main "HOL-Library.Multiset"
begin

section \<open>The zone server of privacy\_zones (scripts/zoneServer.py)\<close>

text \<open>
  The node keeps the zones the robot is in (\<open>current_zones\<close>, \<open>previous_zones\<close>),
  publishes a \<open>Transition\<close> message for every zone entered or left, and answers three
  services. Everything it does to the outside goes through ROS service proxies and one
  publisher; the model records each proxy call in a log and each published message in a
  list, and turns every Python exception into an \<open>Inl\<close> result.
\<close>

subsection \<open>Errors\<close>

text \<open>
  \<open>ServiceException\<close>: a rospy service proxy call failed (the spec's RegistryUnavailable).
  \<open>KeyError\<close>: a dictionary was indexed with a key it lacks (the spec's NotFound).
  \<open>TransformException\<close>: tf could not transform the pose (the spec's TransformUnavailable).
\<close>

datatype error = ServiceException | KeyError | TransformException

subsection \<open>Messages and configuration entries\<close>

text \<open>
  Identifiers (deviceId, controlId, locationId) are only compared for equality and used as
  dictionary keys. Floating-point fields (coordinates, numVal, covariances) are only copied
  from one message to another or handed to an external collaborator; no arithmetic is done
  on them here.
\<close>

record header =
  h_seq :: nat
  h_stamp :: nat
  h_frame_id :: string

record point =
  p_x :: real
  p_y :: real
  p_z :: real

record quaternion =
  q_x :: real
  q_y :: real
  q_z :: real
  q_w :: real

record pose =
  position :: point
  orientation :: quaternion

record pose_stamped =
  ps_header :: header
  ps_pose :: pose

record pose_with_covariance =
  pwc_pose :: pose
  pwc_covariance :: "real list"

record twist =
  tw_linear :: point
  tw_angular :: point

record twist_with_covariance =
  twc_twist :: twist
  twc_covariance :: "real list"

record pose_with_covariance_stamped =
  pcs_header :: header
  pcs_pose :: pose_with_covariance

record odometry =
  od_header :: header
  od_child_frame_id :: string
  od_pose :: pose_with_covariance
  od_twist :: twist_with_covariance

text \<open>An entry of the zone-controls YAML file: the keys deviceId, controlId, control.\<close>

record control_descriptor =
  cd_deviceId :: int
  cd_controlId :: int
  cd_control :: string

text \<open>An element of \<open>GetDeviceInfo(...).controls\<close>; only these two fields are read.\<close>

record peac_control =
  pc_controlId :: int
  pc_numVal :: real

text \<open>The ZoneControl message built by \<open>handle_list_devices\<close>.\<close>

record zone_control =
  zc_zone :: string
  zc_controlId :: int
  zc_deviceId :: int
  zc_name :: string
  zc_numVal :: real

text \<open>Elements of the ListLocations and ListDevices responses.\<close>

record location =
  loc_locationId :: int
  loc_name :: string

record device =
  dev_deviceId :: int
  dev_name :: string

text \<open>
  Modelled from the spec: class Zone of privacy\_zones.map\_geometry is not part of the
  sources at hand. The spec's data model gives a zone a unique name, an ordered sequence
  of 2-D vertices and a coordinate-frame identifier; the code reads \<open>zone.name\<close>,
  \<open>zone.to_msg()\<close> and \<open>zone.gen.frame_id\<close>.
\<close>

record zone =
  z_name :: string
  z_vertices :: "(real \<times> real) list"
  z_frame_id :: string

record zone_msg =
  zm_name :: string
  zm_zone :: "(real \<times> real) list"

text \<open>
  Modelled from the spec: \<open>Zone.to_msg\<close> is not part of the sources at hand. The code
  reads the field \<open>zone\<close> of its result as the zone's polygon; the message identifies the
  zone by its name.
\<close>

definition to_msg :: "zone \<Rightarrow> zone_msg" where
  "to_msg z = \<lparr>zm_name = z_name z, zm_zone = z_vertices z\<rparr>"

record polygon_stamped =
  pgs_header :: header
  pgs_polygon :: "(real \<times> real) list"

datatype action = ENTER | EXIT

record transition =
  tr_action :: action
  tr_zone :: zone_msg
  tr_peac_locations :: "location list"

subsection \<open>The outside world\<close>

text \<open>One entry per call made through a service proxy, in the order the calls are made.\<close>

datatype call =
    GetDeviceInfo int
  | ListLocations
  | ListDevices int
  | GlobalLocalization
  | PolygonLocalization polygon_stamped

text \<open>
  What the constructor of \<open>ZoneServer\<close> sets up and no method changes afterwards: the two
  configuration dictionaries, the geometry (\<open>Zones.in_which\<close>), the tf listener and the
  service proxies. A proxy either returns its response or raises. \<open>set_iter\<close> is the order
  in which Python iterates over a set, given the elements as a duplicate-free list: the
  language does not fix it.
\<close>

record env =
  zone_controls :: "string \<rightharpoonup> control_descriptor list"
  zones :: "string \<rightharpoonup> zone"
  in_which :: "real \<times> real \<Rightarrow> zone list"
  transformPose :: "string \<Rightarrow> pose_stamped \<Rightarrow> error + pose_stamped"
  get_device_info :: "int \<Rightarrow> error + peac_control list"
  list_locations :: "error + location list"
  list_devices :: "int \<Rightarrow> error + device list"
  polygon_localization :: "polygon_stamped \<Rightarrow> error + unit"
  global_localization :: "error + unit"
  set_iter :: "zone list \<Rightarrow> zone list"

text \<open>
  What the methods change: the two membership lists of the server, the messages published
  on the transition topic, and the log of service calls.
\<close>

record state =
  current_zones :: "zone list"
  previous_zones :: "zone list"
  published :: "transition list"
  calls :: "call list"

subsection \<open>handle\_list\_devices\<close>

text \<open>\<open>for cc in response.controls: control_cache[cc.controlId] = cc\<close>\<close>

fun cache_controls :: "peac_control list \<Rightarrow> (int \<rightharpoonup> peac_control) \<Rightarrow> (int \<rightharpoonup> peac_control)" where
  "cache_controls [] control_cache = control_cache"
| "cache_controls (cc # ccs) control_cache =
     cache_controls ccs (control_cache(pc_controlId cc \<mapsto> cc))"

text \<open>
  The first statement of the loop body: when the controlId is not in the cache, ask the
  registry for the descriptor's device and store every control of the answer.
\<close>

definition fill_cache ::
  "env \<Rightarrow> control_descriptor \<Rightarrow> (int \<rightharpoonup> peac_control) \<Rightarrow> call list
    \<Rightarrow> (error + (int \<rightharpoonup> peac_control)) \<times> call list" where
  "fill_cache e control control_cache lg =
     (if control_cache (cd_controlId control) = None
      then (case get_device_info e (cd_deviceId control) of
              Inl err \<Rightarrow> (Inl err, lg @ [GetDeviceInfo (cd_deviceId control)])
            | Inr ccs \<Rightarrow> (Inr (cache_controls ccs control_cache),
                          lg @ [GetDeviceInfo (cd_deviceId control)]))
      else (Inr control_cache, lg))"

text \<open>
  The loop over the zone's descriptors. \<open>control_cache[control['controlId']]\<close> raises
  KeyError when the registry's answer did not contain the descriptor's control.
\<close>

fun list_loop ::
  "env \<Rightarrow> string \<Rightarrow> control_descriptor list \<Rightarrow> (int \<rightharpoonup> peac_control) \<Rightarrow> zone_control list
    \<Rightarrow> call list \<Rightarrow> (error + zone_control list) \<times> call list" where
  "list_loop e req_zone [] control_cache zcs lg = (Inr zcs, lg)"
| "list_loop e req_zone (control # rest) control_cache zcs lg =
     (case fill_cache e control control_cache lg of
        (Inl err, lg') \<Rightarrow> (Inl err, lg')
      | (Inr control_cache', lg') \<Rightarrow>
          (case control_cache' (cd_controlId control) of
             None \<Rightarrow> (Inl KeyError, lg')
           | Some cc \<Rightarrow>
               list_loop e req_zone rest control_cache'
                 (zcs @ [\<lparr>zc_zone = req_zone,
                          zc_controlId = cd_controlId control,
                          zc_deviceId = cd_deviceId control,
                          zc_name = cd_control control,
                          zc_numVal = pc_numVal cc\<rparr>])
                 lg'))"

text \<open>\<open>self.zone_controls.get(req.zone, [])\<close>\<close>

definition controls_of :: "env \<Rightarrow> string \<Rightarrow> control_descriptor list" where
  "controls_of e req_zone = (case zone_controls e req_zone of None \<Rightarrow> [] | Some cs \<Rightarrow> cs)"

text \<open>
  The service handler. The lock it takes is not modelled: a call is one uninterrupted run
  of the body, which starts from an empty cache and an empty result list.
\<close>

definition handle_list_devices ::
  "env \<Rightarrow> string \<Rightarrow> call list \<Rightarrow> (error + zone_control list) \<times> call list" where
  "handle_list_devices e req_zone lg =
     list_loop e req_zone (controls_of e req_zone) Map.empty [] lg"

subsection \<open>get\_peac\_locations\<close>

text \<open>
  The argument is either a zone name or a zone object (\<open>type(zone) != str\<close> selects
  \<open>zone.name\<close>).
\<close>

datatype zone_ref = ByName string | Resolved zone

fun ref_name :: "zone_ref \<Rightarrow> string" where
  "ref_name (ByName n) = n"
| "ref_name (Resolved z) = z_name z"

text \<open>\<open>device_ids.intersection(loc_device_ids)\<close> is non-empty\<close>

definition shares_device :: "int list \<Rightarrow> device list \<Rightarrow> bool" where
  "shares_device device_ids devs = (\<exists>d \<in> set devs. dev_deviceId d \<in> set device_ids)"

fun match_loop ::
  "env \<Rightarrow> int list \<Rightarrow> location list \<Rightarrow> location list \<Rightarrow> call list
    \<Rightarrow> (error + location list) \<times> call list" where
  "match_loop e device_ids [] matched_locations lg = (Inr matched_locations, lg)"
| "match_loop e device_ids (l # ls) matched_locations lg =
     (case list_devices e (loc_locationId l) of
        Inl err \<Rightarrow> (Inl err, lg @ [ListDevices (loc_locationId l)])
      | Inr loc_devices \<Rightarrow>
          match_loop e device_ids ls
            (if shares_device device_ids loc_devices
             then matched_locations @ [l] else matched_locations)
            (lg @ [ListDevices (loc_locationId l)]))"

definition get_peac_locations ::
  "env \<Rightarrow> zone_ref \<Rightarrow> call list \<Rightarrow> (error + location list) \<times> call list" where
  "get_peac_locations e zr lg =
     (case handle_list_devices e (ref_name zr) lg of
        (Inl err, lg1) \<Rightarrow> (Inl err, lg1)
      | (Inr devices, lg1) \<Rightarrow>
          (case list_locations e of
             Inl err \<Rightarrow> (Inl err, lg1 @ [ListLocations])
           | Inr locations \<Rightarrow>
               match_loop e (map zc_deviceId devices) locations [] (lg1 @ [ListLocations])))"

subsection \<open>localize\_in\_zone\<close>

definition localize_in_zone :: "env \<Rightarrow> string \<Rightarrow> call list \<Rightarrow> (error + unit) \<times> call list" where
  "localize_in_zone e req_zone lg =
     (if req_zone = ''NONE''
      then (case global_localization e of
              Inl err \<Rightarrow> (Inl err, lg @ [GlobalLocalization])
            | Inr u \<Rightarrow> (Inr (), lg @ [GlobalLocalization]))
      else (case zones e req_zone of
              None \<Rightarrow> (Inl KeyError, lg)
            | Some z \<Rightarrow>
                (let req = \<lparr>pgs_header = \<lparr>h_seq = 0, h_stamp = 0, h_frame_id = z_frame_id z\<rparr>,
                            pgs_polygon = zm_zone (to_msg z)\<rparr>
                 in (case polygon_localization e req of
                       Inl err \<Rightarrow> (Inl err, lg @ [PolygonLocalization req])
                     | Inr u \<Rightarrow> (Inr (), lg @ [PolygonLocalization req])))))"

subsection \<open>check\_transition and the pose callbacks\<close>

text \<open>\<open>set(xs) - set(ys)\<close>, its elements as a duplicate-free list\<close>

definition set_diff :: "zone list \<Rightarrow> zone list \<Rightarrow> zone list" where
  "set_diff xs ys = remdups (filter (\<lambda>z. z \<notin> set ys) xs)"

text \<open>
  One of the two \<open>for\<close> loops of \<open>check_transition\<close>: for every zone, correlate its
  locations and publish the message. An exception of the correlation leaves the loop and
  the callback; what was published before stays published.
\<close>

fun publish_transitions :: "env \<Rightarrow> action \<Rightarrow> zone list \<Rightarrow> state \<Rightarrow> (error + unit) \<times> state" where
  "publish_transitions e a [] s = (Inr (), s)"
| "publish_transitions e a (z # zs) s =
     (case get_peac_locations e (Resolved z) (calls s) of
        (Inl err, lg') \<Rightarrow> (Inl err, s\<lparr>calls := lg'\<rparr>)
      | (Inr locs, lg') \<Rightarrow>
          publish_transitions e a zs
            (s\<lparr>published := published s @
                  [\<lparr>tr_action = a, tr_zone = to_msg z, tr_peac_locations = locs\<rparr>],
               calls := lg'\<rparr>))"

definition check_transition :: "env \<Rightarrow> state \<Rightarrow> (error + unit) \<times> state" where
  "check_transition e s =
     (if current_zones s \<noteq> []
      then (let entered_zones = set_iter e (set_diff (current_zones s) (previous_zones s));
                exited_zones = set_iter e (set_diff (previous_zones s) (current_zones s))
            in (case publish_transitions e EXIT exited_zones s of
                  (Inl err, s') \<Rightarrow> (Inl err, s')
                | (Inr u, s') \<Rightarrow> publish_transitions e ENTER entered_zones s'))
      else (Inr (), s))"

text \<open>\<open>Point(msg_trans.pose.position.x, msg_trans.pose.position.y)\<close>\<close>

definition pose_point :: "pose_stamped \<Rightarrow> real \<times> real" where
  "pose_point m = (p_x (position (ps_pose m)), p_y (position (ps_pose m)))"

text \<open>\<open>msg.header.stamp = rospy.Time(0)\<close>\<close>

definition restamped :: "pose_stamped \<Rightarrow> pose_stamped" where
  "restamped msg = msg\<lparr>ps_header := (ps_header msg)\<lparr>h_stamp := 0\<rparr>\<rparr>"

definition pose_cb :: "env \<Rightarrow> pose_stamped \<Rightarrow> state \<Rightarrow> (error + unit) \<times> state" where
  "pose_cb e msg s =
     (case transformPose e ''map'' (restamped msg) of
        Inl err \<Rightarrow> (Inl err, s)
      | Inr msg_trans \<Rightarrow>
          (let pt = pose_point msg_trans;
               within_zones = in_which e pt
           in if within_zones \<noteq> []
              then check_transition e
                     (s\<lparr>previous_zones := current_zones s, current_zones := within_zones\<rparr>)
              else (Inr (), s)))"

definition pose_with_cov_cb ::
  "env \<Rightarrow> pose_with_covariance_stamped \<Rightarrow> state \<Rightarrow> (error + unit) \<times> state" where
  "pose_with_cov_cb e msg s =
     pose_cb e \<lparr>ps_header = pcs_header msg, ps_pose = pwc_pose (pcs_pose msg)\<rparr> s"

definition odom_cb :: "env \<Rightarrow> odometry \<Rightarrow> state \<Rightarrow> (error + unit) \<times> state" where
  "odom_cb e msg s =
     pose_cb e \<lparr>ps_header = od_header msg, ps_pose = pwc_pose (od_pose msg)\<rparr> s"

subsection \<open>Two calls of the service on two threads\<close>

text \<open>
  rospy runs every service call on a thread of its own, so two calls of
  \<open>handle_list_devices\<close> can be under way together. The body of the handler is one
  \<open>with self.list_devices_lock:\<close> block: a thread waits until the lock is free, takes
  it, runs the loop, and gives the lock back when it leaves the block, by \<open>return\<close> or
  by an exception.
\<close>

datatype tid = T1 | T2

fun other :: "tid \<Rightarrow> tid" where
  "other T1 = T2"
| "other T2 = T1"

text \<open>
  A call has not yet taken the lock, or it is inside the loop with the descriptors still
  to handle, its own cache and its own result list, or it has returned or raised.
\<close>

datatype worker =
    Waiting
  | Running "control_descriptor list" "int \<rightharpoonup> peac_control" "zone_control list"
  | Finished "error + zone_control list"

text \<open>The lock (its owner, if any), the log of service calls and the two calls.\<close>

record system =
  owner :: "tid option"
  sys_calls :: "call list"
  workers :: "tid \<Rightarrow> worker"

text \<open>
  One iteration of the loop of \<open>handle_list_devices\<close>, or the \<open>return\<close> after the
  last one: the body of \<open>list_loop\<close>, stopping where \<open>list_loop\<close> goes round again.
\<close>

fun loop_step ::
  "env \<Rightarrow> string \<Rightarrow> control_descriptor list \<Rightarrow> (int \<rightharpoonup> peac_control) \<Rightarrow> zone_control list
    \<Rightarrow> call list \<Rightarrow> worker \<times> call list" where
  "loop_step e req_zone [] control_cache zcs lg = (Finished (Inr zcs), lg)"
| "loop_step e req_zone (control # rest) control_cache zcs lg =
     (case fill_cache e control control_cache lg of
        (Inl err, lg') \<Rightarrow> (Finished (Inl err), lg')
      | (Inr control_cache', lg') \<Rightarrow>
          (case control_cache' (cd_controlId control) of
             None \<Rightarrow> (Finished (Inl KeyError), lg')
           | Some cc \<Rightarrow>
               (Running rest control_cache'
                 (zcs @ [\<lparr>zc_zone = req_zone,
                          zc_controlId = cd_controlId control,
                          zc_deviceId = cd_deviceId control,
                          zc_name = cd_control control,
                          zc_numVal = pc_numVal cc\<rparr>]),
                lg')))"

text \<open>
  The scheduler lets thread \<open>t\<close> move. A waiting thread takes the lock when it is free
  and stays blocked otherwise; the thread that owns the lock runs one step of its body,
  and frees the lock with the step that leaves the block. \<open>es t\<close> is the server as the
  call on thread \<open>t\<close> finds it: the registry may answer the two calls differently.
\<close>

definition thread_step :: "(tid \<Rightarrow> env) \<Rightarrow> string \<Rightarrow> tid \<Rightarrow> system \<Rightarrow> system" where
  "thread_step es req_zone t s =
     (case workers s t of
        Waiting \<Rightarrow>
          (if owner s = None
           then s\<lparr>owner := Some t,
                  workers := (workers s)(t := Running (controls_of (es t) req_zone) Map.empty [])\<rparr>
           else s)
      | Running cs control_cache zcs \<Rightarrow>
          (if owner s = Some t
           then (case loop_step (es t) req_zone cs control_cache zcs (sys_calls s) of
                   (w', lg') \<Rightarrow>
                     s\<lparr>owner := (case w' of Finished r \<Rightarrow> None | _ \<Rightarrow> Some t),
                       sys_calls := lg',
                       workers := (workers s)(t := w')\<rparr>)
           else s)
      | Finished r \<Rightarrow> s)"

text \<open>A schedule is the order in which the threads are let move.\<close>

fun run_schedule :: "(tid \<Rightarrow> env) \<Rightarrow> string \<Rightarrow> tid list \<Rightarrow> system \<Rightarrow> system" where
  "run_schedule es req_zone [] s = s"
| "run_schedule es req_zone (t # ts) s = run_schedule es req_zone ts (thread_step es req_zone t s)"

text \<open>Both calls arrive while the lock is free; the threads then move as scheduled.\<close>

definition two_calls :: "(tid \<Rightarrow> env) \<Rightarrow> string \<Rightarrow> tid list \<Rightarrow> call list \<Rightarrow> system" where
  "two_calls es req_zone sched lg =
     run_schedule es req_zone sched \<lparr>owner = None, sys_calls = lg, workers = (\<lambda>t. Waiting)\<rparr>"

subsection \<open>Vocabulary of the statements\<close>

text \<open>The calls an invocation added to the log it started from.\<close>

definition issued :: "call list \<Rightarrow> call list \<Rightarrow> call list" where
  "issued lg lg' = drop (length lg) lg'"

text \<open>The registry calls that a list of descriptors stands for, one per descriptor.\<close>

definition queries :: "control_descriptor list \<Rightarrow> call list" where
  "queries qs = map (\<lambda>q. GetDeviceInfo (cd_deviceId q)) qs"

text \<open>The device ids the registry lists for a location (none when the call fails).\<close>

definition loc_device_ids :: "env \<Rightarrow> location \<Rightarrow> int set" where
  "loc_device_ids e l =
     (case list_devices e (loc_locationId l) of
        Inl err \<Rightarrow> {}
      | Inr devs \<Rightarrow> dev_deviceId ` set devs)"

text \<open>Action and zone of each published message, in publication order.\<close>

definition event_keys :: "transition list \<Rightarrow> (action \<times> zone_msg) list" where
  "event_keys ts = map (\<lambda>t. (tr_action t, tr_zone t)) ts"

text \<open>
  The registry answers for every control descriptor of the zone, and the answer for the
  descriptor's device lists the descriptor's control.
\<close>

definition device_answers :: "env \<Rightarrow> string \<Rightarrow> bool" where
  "device_answers e zone_name =
     (\<forall>c \<in> set (controls_of e zone_name).
        \<exists>ccs. get_device_info e (cd_deviceId c) = Inr ccs
            \<and> cd_controlId c \<in> pc_controlId ` set ccs)"

text \<open>The location registry answers, and it lists the devices of each of its locations.\<close>

definition locations_answer :: "env \<Rightarrow> bool" where
  "locations_answer e =
     (\<exists>locations. list_locations e = Inr locations
        \<and> (\<forall>l \<in> set locations. \<exists>devs. list_devices e (loc_locationId l) = Inr devs))"

text \<open>
  Correlating each of the zones goes through: no registry call made for them can fail
  and no configured control can be missing. No zone, no call.
\<close>

definition correlation_succeeds :: "env \<Rightarrow> zone list \<Rightarrow> bool" where
  "correlation_succeeds e zs =
     (zs \<noteq> [] \<longrightarrow> (\<forall>z \<in> set zs. device_answers e (z_name z)) \<and> locations_answer e)"

text \<open>
  A call that has taken the lock is on its way to an outcome: run to its end from where
  it stands, its loop gives that result and that log.
\<close>

definition on_the_way ::
  "env \<Rightarrow> string \<Rightarrow> worker \<Rightarrow> call list \<Rightarrow> (error + zone_control list) \<times> call list \<Rightarrow> bool" where
  "on_the_way e req_zone w lg target =
     (case w of
        Waiting \<Rightarrow> False
      | Running cs control_cache zcs \<Rightarrow> list_loop e req_zone cs control_cache zcs lg = target
      | Finished r \<Rightarrow> (r, lg) = target)"

text \<open>Thread \<open>t\<close> owns the lock exactly while it is inside the loop; nobody else does.\<close>

definition holds_lock :: "tid \<Rightarrow> system \<Rightarrow> bool" where
  "holds_lock t s =
     (owner s = (case workers s t of Running cs control_cache zcs \<Rightarrow> Some t | _ \<Rightarrow> None))"

text \<open>
  What holds at every moment of two calls that started on the log \<open>lg\<close>: no call has
  taken the lock yet; or one call is alone on its way to what it does on \<open>lg\<close> while the
  other still waits; or one call has finished as it does on \<open>lg\<close> and the other is on
  its way to what it does on the log the first one left.
\<close>

definition serial_inv :: "(tid \<Rightarrow> env) \<Rightarrow> string \<Rightarrow> call list \<Rightarrow> system \<Rightarrow> bool" where
  "serial_inv es req_zone lg s =
     ((owner s = None \<and> workers s T1 = Waiting \<and> workers s T2 = Waiting \<and> sys_calls s = lg)
    \<or> (\<exists>t. workers s (other t) = Waiting \<and> holds_lock t s
          \<and> on_the_way (es t) req_zone (workers s t) (sys_calls s)
               (handle_list_devices (es t) req_zone lg))
    \<or> (\<exists>t r lg1. workers s (other t) = Finished r
          \<and> handle_list_devices (es (other t)) req_zone lg = (r, lg1)
          \<and> holds_lock t s
          \<and> on_the_way (es t) req_zone (workers s t) (sys_calls s)
               (handle_list_devices (es t) req_zone lg1)))"

subsection \<open>A concrete installation\<close>

text \<open>
  Two overlapping squares A and B, the example of the spec's testable properties; device 1
  carries the controls 10 and 11, device 2 the control 20; three registered locations.
\<close>

definition zoneA :: zone where
  "zoneA = \<lparr>z_name = ''A'', z_vertices = [(0, 0), (10, 0), (10, 10), (0, 10)],
            z_frame_id = ''map''\<rparr>"

definition zoneB :: zone where
  "zoneB = \<lparr>z_name = ''B'', z_vertices = [(5, 5), (15, 5), (15, 15), (5, 15)],
            z_frame_id = ''map''\<rparr>"

definition demo_controls :: "string \<rightharpoonup> control_descriptor list" where
  "demo_controls =
     [''A'' \<mapsto> [\<lparr>cd_deviceId = 1, cd_controlId = 10, cd_control = ''lamp''\<rparr>,
               \<lparr>cd_deviceId = 1, cd_controlId = 11, cd_control = ''dimmer''\<rparr>,
               \<lparr>cd_deviceId = 1, cd_controlId = 10, cd_control = ''lamp switch''\<rparr>],
      ''B'' \<mapsto> [\<lparr>cd_deviceId = 2, cd_controlId = 20, cd_control = ''blind''\<rparr>]]"

definition demo_in_which :: "real \<times> real \<Rightarrow> zone list" where
  "demo_in_which pt =
     (if 0 < fst pt \<and> fst pt < 10 \<and> 0 < snd pt \<and> snd pt < 10 then [zoneA] else []) @
     (if 5 < fst pt \<and> fst pt < 15 \<and> 5 < snd pt \<and> snd pt < 15 then [zoneB] else [])"

definition demo_device_info :: "int \<Rightarrow> error + peac_control list" where
  "demo_device_info d =
     (if d = 1 then Inr [\<lparr>pc_controlId = 10, pc_numVal = 1\<rparr>, \<lparr>pc_controlId = 11, pc_numVal = 40\<rparr>]
      else if d = 2 then Inr [\<lparr>pc_controlId = 20, pc_numVal = 0\<rparr>]
      else Inl ServiceException)"

definition demo_locations :: "location list" where
  "demo_locations =
     [\<lparr>loc_locationId = 1, loc_name = ''kitchen''\<rparr>,
      \<lparr>loc_locationId = 2, loc_name = ''hall''\<rparr>,
      \<lparr>loc_locationId = 3, loc_name = ''lab''\<rparr>]"

definition demo_list_devices :: "int \<Rightarrow> error + device list" where
  "demo_list_devices l =
     (if l = 1 then Inr [\<lparr>dev_deviceId = 1, dev_name = ''ceiling''\<rparr>]
      else if l = 2 then Inr [\<lparr>dev_deviceId = 2, dev_name = ''window''\<rparr>,
                              \<lparr>dev_deviceId = 1, dev_name = ''ceiling''\<rparr>]
      else Inr [\<lparr>dev_deviceId = 7, dev_name = ''bench''\<rparr>])"

definition demo_env :: env where
  "demo_env =
     \<lparr>zone_controls = demo_controls,
      zones = [''A'' \<mapsto> zoneA, ''B'' \<mapsto> zoneB],
      in_which = demo_in_which,
      transformPose = (\<lambda>frame msg. Inr (msg\<lparr>ps_header := (ps_header msg)\<lparr>h_frame_id := frame\<rparr>\<rparr>)),
      get_device_info = demo_device_info,
      list_locations = Inr demo_locations,
      list_devices = demo_list_devices,
      polygon_localization = (\<lambda>req. Inr ()),
      global_localization = Inr (),
      set_iter = (\<lambda>xs. xs)\<rparr>"

text \<open>The same installation while the device registry is unreachable.\<close>

definition down_env :: env where
  "down_env = demo_env\<lparr>get_device_info := (\<lambda>d. Inl ServiceException)\<rparr>"

definition pose_at :: "real \<Rightarrow> real \<Rightarrow> pose_stamped" where
  "pose_at x y =
     \<lparr>ps_header = \<lparr>h_seq = 0, h_stamp = 5, h_frame_id = ''odom''\<rparr>,
      ps_pose = \<lparr>position = \<lparr>p_x = x, p_y = y, p_z = 0\<rparr>,
                 orientation = \<lparr>q_x = 0, q_y = 0, q_z = 0, q_w = 1\<rparr>\<rparr>\<rparr>"

text \<open>The state the constructor leaves.\<close>

definition init_state :: state where
  "init_state = \<lparr>current_zones = [], previous_zones = [], published = [], calls = []\<rparr>"

text \<open>The robot stands in both zones; nothing was published yet.\<close>

definition in_both_state :: state where
  "in_both_state =
     \<lparr>current_zones = [zoneA, zoneB], previous_zones = [], published = [], calls = []\<rparr>"

text \<open>What the demo tf listener returns: the pose re-expressed in the map frame.\<close>

definition at_map :: "pose_stamped \<Rightarrow> pose_stamped" where
  "at_map msg = msg\<lparr>ps_header := \<lparr>h_seq = 0, h_stamp = 0, h_frame_id = ''map''\<rparr>\<rparr>"

text \<open>
  The states after the pose (12, 12) arrives in \<open>in_both_state\<close>, and after the pose
  (7, 7) arrives in \<open>init_state\<close>, with the registry up.
\<close>

definition after_exit_state :: state where
  "after_exit_state =
     \<lparr>current_zones = [zoneB], previous_zones = [zoneA, zoneB],
      published = [\<lparr>tr_action = EXIT, tr_zone = to_msg zoneA,
                    tr_peac_locations = [\<lparr>loc_locationId = 1, loc_name = ''kitchen''\<rparr>,
                                         \<lparr>loc_locationId = 2, loc_name = ''hall''\<rparr>]\<rparr>],
      calls = [GetDeviceInfo 1, ListLocations, ListDevices 1, ListDevices 2, ListDevices 3]\<rparr>"

definition after_enter_state :: state where
  "after_enter_state =
     \<lparr>current_zones = [zoneA, zoneB], previous_zones = [],
      published = [\<lparr>tr_action = ENTER, tr_zone = to_msg zoneA,
                    tr_peac_locations = [\<lparr>loc_locationId = 1, loc_name = ''kitchen''\<rparr>,
                                         \<lparr>loc_locationId = 2, loc_name = ''hall''\<rparr>]\<rparr>,
                   \<lparr>tr_action = ENTER, tr_zone = to_msg zoneB,
                    tr_peac_locations = [\<lparr>loc_locationId = 2, loc_name = ''hall''\<rparr>]\<rparr>],
      calls = [GetDeviceInfo 1, ListLocations, ListDevices 1, ListDevices 2, ListDevices 3,
               GetDeviceInfo 2, ListLocations, ListDevices 1, ListDevices 2, ListDevices 3]\<rparr>"

text \<open>
  Two calls for zone B against the same registry, on threads that take turns: thread 2
  is let move while thread 1 holds the lock.
\<close>

definition demo_envs :: "tid \<Rightarrow> env" where
  "demo_envs t = demo_env"

definition demo_schedule :: "tid list" where
  "demo_schedule = [T1, T2, T1, T2, T1, T2, T2, T2]"

text \<open>What a call for zone B returns while the registry is up.\<close>

definition blind_result :: "error + zone_control list" where
  "blind_result = Inr [\<lparr>zc_zone = ''B'', zc_controlId = 20, zc_deviceId = 2, zc_name = ''blind'', zc_numVal = 0\<rparr>]"

section \<open>Properties\<close>

subsection \<open>Listing the devices of a zone\<close>

lemma cache_controls_keeps:
  "control_cache k \<noteq> None \<Longrightarrow> cache_controls ccs control_cache k \<noteq> None"
proof (induction ccs arbitrary: control_cache)
  case Nil
  then show ?case by simp
next
  case (Cons cc ccs)
  have "(control_cache(pc_controlId cc \<mapsto> cc)) k \<noteq> None"
    using Cons.prems by (cases "k = pc_controlId cc") simp_all
  then have "cache_controls ccs (control_cache(pc_controlId cc \<mapsto> cc)) k \<noteq> None"
    by (rule Cons.IH)
  then show ?case unfolding cache_controls.simps .
qed

lemma fill_cache_hit:
  "control_cache (cd_controlId c) \<noteq> None \<Longrightarrow> fill_cache e c control_cache lg = (Inr control_cache, lg)"
  by (cases "control_cache (cd_controlId c)") (simp_all add: fill_cache_def)

lemma fill_cache_miss:
  "control_cache (cd_controlId c) = None \<Longrightarrow>
   fill_cache e c control_cache lg =
     (map_sum id (\<lambda>ccs. cache_controls ccs control_cache) (get_device_info e (cd_deviceId c)),
      lg @ [GetDeviceInfo (cd_deviceId c)])"
  by (simp add: fill_cache_def split: sum.splits)

lemma fill_cache_keeps:
  "fill_cache e c control_cache lg = (Inr cache', lg') \<Longrightarrow> control_cache k \<noteq> None \<Longrightarrow> cache' k \<noteq> None"
  using cache_controls_keeps [of control_cache k]
  by (cases "control_cache (cd_controlId c)"; cases "get_device_info e (cd_deviceId c)")
     (auto simp: fill_cache_def simp del: not_None_eq)

lemma list_loop_queries:
  "list_loop e z cs control_cache zcs lg = (r, lg') \<Longrightarrow>
   \<exists>qs. lg' = lg @ queries qs \<and> distinct (map cd_controlId qs) \<and> set qs \<subseteq> set cs
        \<and> (\<forall>q \<in> set qs. control_cache (cd_controlId q) = None)
        \<and> (\<forall>c rest. cs = c # rest \<and> control_cache (cd_controlId c) = None \<longrightarrow> (\<exists>qs'. qs = c # qs'))"
proof (induction cs arbitrary: control_cache zcs lg)
  case Nil
  then show ?case by (auto simp: queries_def intro: exI [of _ "[]"])
next
  case (Cons c cs)
  show ?case
  proof (cases "control_cache (cd_controlId c) = None")
    case False
    then obtain cc where cc: "control_cache (cd_controlId c) = Some cc" by auto
    with Cons.prems False have "list_loop e z cs control_cache
        (zcs @ [\<lparr>zc_zone = z, zc_controlId = cd_controlId c, zc_deviceId = cd_deviceId c,
                 zc_name = cd_control c, zc_numVal = pc_numVal cc\<rparr>]) lg = (r, lg')"
      by (simp add: fill_cache_hit)
    from Cons.IH [OF this] obtain qs where
      "lg' = lg @ queries qs" "distinct (map cd_controlId qs)" "set qs \<subseteq> set cs"
      "\<forall>q \<in> set qs. control_cache (cd_controlId q) = None" by blast
    with False show ?thesis by (intro exI [of _ qs]) auto
  next
    case True
    let ?lg1 = "lg @ [GetDeviceInfo (cd_deviceId c)]"
    show ?thesis
    proof (cases "get_device_info e (cd_deviceId c)")
      case (Inl err)
      with True Cons.prems have "lg' = ?lg1" by (simp add: fill_cache_miss)
      with True show ?thesis by (intro exI [of _ "[c]"]) (simp add: queries_def)
    next
      case (Inr ccs)
      let ?cache = "cache_controls ccs control_cache"
      show ?thesis
      proof (cases "?cache (cd_controlId c)")
        case None
        with True Inr Cons.prems have "lg' = ?lg1" by (simp add: fill_cache_miss)
        with True show ?thesis by (intro exI [of _ "[c]"]) (simp add: queries_def)
      next
        case (Some cc)
        with True Inr Cons.prems have "list_loop e z cs ?cache
          (zcs @ [\<lparr>zc_zone = z, zc_controlId = cd_controlId c, zc_deviceId = cd_deviceId c,
                 zc_name = cd_control c, zc_numVal = pc_numVal cc\<rparr>]) ?lg1 = (r, lg')"
          by (simp add: fill_cache_miss)
        from Cons.IH [OF this] obtain qs where qs:
          "lg' = ?lg1 @ queries qs" "distinct (map cd_controlId qs)" "set qs \<subseteq> set cs"
          "\<forall>q \<in> set qs. ?cache (cd_controlId q) = None" by blast
        have fresh: "cd_controlId c \<notin> cd_controlId ` set qs"
          using qs(4) Some by auto
        have old: "\<forall>q \<in> set qs. control_cache (cd_controlId q) = None"
          using qs(4) cache_controls_keeps [of control_cache _ ccs] by blast
        show ?thesis
          using qs(1-3) fresh old True
          by (intro exI [of _ "c # qs"]) (auto simp: queries_def)
      qed
    qed
  qed
qed

lemma fill_cache_log:
  "fill_cache e c control_cache lg =
     (fst (fill_cache e c control_cache []), lg @ snd (fill_cache e c control_cache []))"
  by (simp add: fill_cache_def split: sum.splits)

lemma list_loop_log:
  "list_loop e z cs control_cache zcs lg =
     (fst (list_loop e z cs control_cache zcs []), lg @ snd (list_loop e z cs control_cache zcs []))"
proof (induction cs arbitrary: control_cache zcs lg)
  case Nil
  show ?case by simp
next
  case (Cons c cs)
  obtain r l where f0: "fill_cache e c control_cache [] = (r, l)" by (cases "fill_cache e c control_cache []")
  then have f: "fill_cache e c control_cache lg = (r, lg @ l)"
    using fill_cache_log [of e c control_cache lg] by simp
  show ?case
  proof (cases r)
    case (Inl err)
    with f0 f show ?thesis by simp
  next
    case (Inr cache')
    show ?thesis
    proof (cases "cache' (cd_controlId c)")
      case None
      with Inr f0 f show ?thesis by simp
    next
      case (Some cc)
      let ?zcs = "zcs @ [\<lparr>zc_zone = z, zc_controlId = cd_controlId c, zc_deviceId = cd_deviceId c,
                 zc_name = cd_control c, zc_numVal = pc_numVal cc\<rparr>]"
      have a: "list_loop e z (c # cs) control_cache zcs lg = list_loop e z cs cache' ?zcs (lg @ l)"
        using Inr Some f by simp
      have b: "list_loop e z (c # cs) control_cache zcs [] = list_loop e z cs cache' ?zcs l"
        using Inr Some f0 by simp
      show ?thesis
        unfolding a b
        using Cons.IH [of cache' ?zcs "lg @ l"] Cons.IH [of cache' ?zcs l]
        by (metis append.assoc fst_conv snd_conv)
    qed
  qed
qed


lemma list_loop_failure:
  "list_loop e z cs control_cache zcs lg = (r, lg') \<Longrightarrow> get_device_info e d = Inl err \<Longrightarrow>
   \<exists>new. lg' = lg @ new \<and>
     (GetDeviceInfo d \<in> set new \<longrightarrow>
        r = Inl err \<and> (\<exists>pre. new = pre @ [GetDeviceInfo d] \<and> GetDeviceInfo d \<notin> set pre))"
proof (induction cs arbitrary: control_cache zcs lg)
  case Nil
  then show ?case by simp
next
  case (Cons c cs)
  show ?case
  proof (cases "control_cache (cd_controlId c) = None")
    case False
    then obtain cc where cc: "control_cache (cd_controlId c) = Some cc" by auto
    with Cons.prems(1) False have "list_loop e z cs control_cache
        (zcs @ [\<lparr>zc_zone = z, zc_controlId = cd_controlId c, zc_deviceId = cd_deviceId c,
                 zc_name = cd_control c, zc_numVal = pc_numVal cc\<rparr>]) lg = (r, lg')"
      by (simp add: fill_cache_hit)
    from Cons.IH [OF this Cons.prems(2)] show ?thesis .
  next
    case True
    let ?q = "GetDeviceInfo (cd_deviceId c)"
    show ?thesis
    proof (cases "get_device_info e (cd_deviceId c)")
      case (Inl err')
      with True Cons.prems(1) have res: "r = Inl err'" "lg' = lg @ [?q]"
        by (simp_all add: fill_cache_miss)
      have "GetDeviceInfo d \<in> set [?q] \<longrightarrow>
          r = Inl err \<and> (\<exists>pre. [?q] = pre @ [GetDeviceInfo d] \<and> GetDeviceInfo d \<notin> set pre)"
      proof
        assume "GetDeviceInfo d \<in> set [?q]"
        then have d: "d = cd_deviceId c" by simp
        with Inl Cons.prems(2) res(1) have "r = Inl err" by simp
        moreover from d have "[?q] = [] @ [GetDeviceInfo d] \<and> GetDeviceInfo d \<notin> set []" by simp
        then have "\<exists>pre. [?q] = pre @ [GetDeviceInfo d] \<and> GetDeviceInfo d \<notin> set pre" by blast
        ultimately show "r = Inl err \<and> (\<exists>pre. [?q] = pre @ [GetDeviceInfo d] \<and> GetDeviceInfo d \<notin> set pre)"
          by blast
      qed
      with res(2) show ?thesis by blast
    next
      case (Inr ccs)
      with Cons.prems(2) have neq: "d \<noteq> cd_deviceId c" by auto
      let ?cache = "cache_controls ccs control_cache"
      show ?thesis
      proof (cases "?cache (cd_controlId c)")
        case None
        with True Inr Cons.prems(1) have "lg' = lg @ [?q]" by (simp add: fill_cache_miss)
        with neq show ?thesis by (intro exI [of _ "[?q]"]) simp
      next
        case (Some cc)
        with True Inr Cons.prems(1) have "list_loop e z cs ?cache
          (zcs @ [\<lparr>zc_zone = z, zc_controlId = cd_controlId c, zc_deviceId = cd_deviceId c,
                 zc_name = cd_control c, zc_numVal = pc_numVal cc\<rparr>]) (lg @ [?q]) = (r, lg')"
          by (simp add: fill_cache_miss)
        from Cons.IH [OF this Cons.prems(2)] obtain new where new:
          "lg' = (lg @ [?q]) @ new"
          "GetDeviceInfo d \<in> set new \<longrightarrow>
             r = Inl err \<and> (\<exists>pre. new = pre @ [GetDeviceInfo d] \<and> GetDeviceInfo d \<notin> set pre)"
          by blast
        have "GetDeviceInfo d \<in> set (?q # new) \<longrightarrow>
          r = Inl err \<and> (\<exists>pre. ?q # new = pre @ [GetDeviceInfo d] \<and> GetDeviceInfo d \<notin> set pre)"
        proof
          assume "GetDeviceInfo d \<in> set (?q # new)"
          with neq have mem: "GetDeviceInfo d \<in> set new" by simp
          with new(2) obtain pre where pre: "new = pre @ [GetDeviceInfo d]" "GetDeviceInfo d \<notin> set pre"
            by blast
          with neq have "?q # new = (?q # pre) @ [GetDeviceInfo d] \<and> GetDeviceInfo d \<notin> set (?q # pre)"
            by simp
          then have "\<exists>pre. ?q # new = pre @ [GetDeviceInfo d] \<and> GetDeviceInfo d \<notin> set pre"
            by blast
          with mem new(2) show "r = Inl err \<and> (\<exists>pre. ?q # new = pre @ [GetDeviceInfo d] \<and> GetDeviceInfo d \<notin> set pre)"
            by blast
        qed
        moreover have "lg' = lg @ ?q # new" using new(1) by simp
        ultimately show ?thesis by blast
      qed
    qed
  qed
qed

lemma cache_controls_adds:
  "k \<in> pc_controlId ` set ccs \<Longrightarrow> cache_controls ccs control_cache k \<noteq> None"
proof (induction ccs arbitrary: control_cache)
  case Nil
  then show ?case by simp
next
  case (Cons cc ccs)
  show ?case
  proof (cases "k \<in> pc_controlId ` set ccs")
    case True
    then have "cache_controls ccs (control_cache(pc_controlId cc \<mapsto> cc)) k \<noteq> None"
      by (rule Cons.IH)
    then show ?thesis unfolding cache_controls.simps .
  next
    case False
    with Cons.prems have "k = pc_controlId cc" by simp
    then have "(control_cache(pc_controlId cc \<mapsto> cc)) k \<noteq> None" by simp
    then have "cache_controls ccs (control_cache(pc_controlId cc \<mapsto> cc)) k \<noteq> None"
      by (rule cache_controls_keeps)
    then show ?thesis unfolding cache_controls.simps .
  qed
qed

lemma list_loop_ok:
  "\<forall>c \<in> set cs. \<exists>ccs. get_device_info e (cd_deviceId c) = Inr ccs
        \<and> cd_controlId c \<in> pc_controlId ` set ccs \<Longrightarrow>
   \<exists>zcs' lg'. list_loop e z cs control_cache zcs lg = (Inr zcs', lg')"
proof (induction cs arbitrary: control_cache zcs lg)
  case Nil
  show ?case by simp
next
  case (Cons c cs)
  from Cons.prems obtain ccs where ccs: "get_device_info e (cd_deviceId c) = Inr ccs"
    "cd_controlId c \<in> pc_controlId ` set ccs" by auto
  from Cons.prems have rest: "\<forall>c \<in> set cs. \<exists>ccs. get_device_info e (cd_deviceId c) = Inr ccs
        \<and> cd_controlId c \<in> pc_controlId ` set ccs" by simp
  show ?case
  proof (cases "control_cache (cd_controlId c)")
    case None
    let ?cache = "cache_controls ccs control_cache"
    from cache_controls_adds [OF ccs(2), of control_cache]
    obtain cc where cc: "?cache (cd_controlId c) = Some cc" by auto
    have "list_loop e z (c # cs) control_cache zcs lg =
        list_loop e z cs ?cache
          (zcs @ [\<lparr>zc_zone = z, zc_controlId = cd_controlId c, zc_deviceId = cd_deviceId c,
                 zc_name = cd_control c, zc_numVal = pc_numVal cc\<rparr>])
          (lg @ [GetDeviceInfo (cd_deviceId c)])"
      using None ccs(1) cc by (simp add: fill_cache_miss)
    with Cons.IH [OF rest] show ?thesis by simp
  next
    case (Some cc)
    have "list_loop e z (c # cs) control_cache zcs lg =
        list_loop e z cs control_cache
          (zcs @ [\<lparr>zc_zone = z, zc_controlId = cd_controlId c, zc_deviceId = cd_deviceId c,
                 zc_name = cd_control c, zc_numVal = pc_numVal cc\<rparr>]) lg"
      using Some by (simp add: fill_cache_hit)
    with Cons.IH [OF rest] show ?thesis by simp
  qed
qed

lemma handle_list_devices_log:
  "handle_list_devices e z lg =
     (fst (handle_list_devices e z []), lg @ snd (handle_list_devices e z []))"
  unfolding handle_list_devices_def by (rule list_loop_log)

lemma issued_append [simp]: "issued lg (lg @ new) = new"
  by (simp add: issued_def)


text \<open>
  C10. A zone name without configured control descriptors, whether the name is missing
  from the zone-control configuration or maps to the empty list, makes
  \<open>handle_list_devices\<close> succeed with the empty sequence; the log of registry calls is
  left as it was, so no registry call is made.
\<close>

theorem handle_list_devices_no_descriptors:
  assumes "zone_controls e z = None \<or> zone_controls e z = Some []"
  shows "handle_list_devices e z lg = (Inr [], lg)"
  using assms by (auto simp: handle_list_devices_def controls_of_def)

theorem handle_list_devices_no_descriptors_witness:
  "zone_controls demo_env ''cellar'' = None
   \<and> handle_list_devices demo_env ''cellar'' [ListLocations] = (Inr [], [ListLocations])"
proof -
  have h: "zone_controls demo_env ''cellar'' = None"
    by (simp add: demo_env_def demo_controls_def)
  from handle_list_devices_no_descriptors [of demo_env "''cellar''" "[ListLocations]"] h
  show ?thesis by simp
qed

text \<open>
  C5. One invocation of \<open>handle_list_devices\<close> adds to the log exactly the registry
  queries of a list \<open>qs\<close> of the zone's descriptors whose controlIds are pairwise
  different: the registry is asked at most once per distinct controlId of the zone. The
  cache belongs to the invocation: whatever ran before (whatever the log holds), the
  invocation behaves as on an empty log, and the first descriptor of a zone always
  triggers a query.
\<close>

theorem handle_list_devices_queries:
  assumes "handle_list_devices e z lg = (r, lg')"
  shows "\<exists>qs. lg' = lg @ queries qs
           \<and> distinct (map cd_controlId qs)
           \<and> set qs \<subseteq> set (controls_of e z)
           \<and> length qs \<le> card (cd_controlId ` set (controls_of e z))
           \<and> (\<forall>c rest. controls_of e z = c # rest \<longrightarrow> (\<exists>qs'. qs = c # qs'))
           \<and> handle_list_devices e z [] = (r, queries qs)"
proof -
  from assms have "list_loop e z (controls_of e z) Map.empty [] lg = (r, lg')"
    by (simp add: handle_list_devices_def)
  from list_loop_queries [OF this] obtain qs where qs:
    "lg' = lg @ queries qs" "distinct (map cd_controlId qs)" "set qs \<subseteq> set (controls_of e z)"
    "\<forall>c rest. controls_of e z = c # rest \<and> Map.empty (cd_controlId c) = None \<longrightarrow> (\<exists>qs'. qs = c # qs')"
    by blast
  have "length qs = card (set (map cd_controlId qs))"
    using qs(2) distinct_card [of "map cd_controlId qs"] by simp
  also have "\<dots> \<le> card (cd_controlId ` set (controls_of e z))"
    using qs(3) by (auto intro!: card_mono)
  finally have len: "length qs \<le> card (cd_controlId ` set (controls_of e z))" .
  have "handle_list_devices e z [] = (r, queries qs)"
    using handle_list_devices_log [of e z lg] assms qs(1)
    by (cases "handle_list_devices e z []") simp
  with qs len show ?thesis by (intro exI [of _ qs]) simp
qed

theorem handle_list_devices_queries_witness:
  "handle_list_devices demo_env ''A'' [ListLocations] =
     (Inr [\<lparr>zc_zone = ''A'', zc_controlId = 10, zc_deviceId = 1, zc_name = ''lamp'', zc_numVal = 1\<rparr>,
           \<lparr>zc_zone = ''A'', zc_controlId = 11, zc_deviceId = 1, zc_name = ''dimmer'', zc_numVal = 40\<rparr>,
           \<lparr>zc_zone = ''A'', zc_controlId = 10, zc_deviceId = 1, zc_name = ''lamp switch'', zc_numVal = 1\<rparr>],
      [ListLocations, GetDeviceInfo 1])
   \<and> (\<exists>qs. [ListLocations, GetDeviceInfo 1] = [ListLocations] @ queries qs
           \<and> distinct (map cd_controlId qs)
           \<and> length qs \<le> card (cd_controlId ` set (controls_of demo_env ''A'')))"
proof -
  have run: "handle_list_devices demo_env ''A'' [ListLocations] =
     (Inr [\<lparr>zc_zone = ''A'', zc_controlId = 10, zc_deviceId = 1, zc_name = ''lamp'', zc_numVal = 1\<rparr>,
           \<lparr>zc_zone = ''A'', zc_controlId = 11, zc_deviceId = 1, zc_name = ''dimmer'', zc_numVal = 40\<rparr>,
           \<lparr>zc_zone = ''A'', zc_controlId = 10, zc_deviceId = 1, zc_name = ''lamp switch'', zc_numVal = 1\<rparr>],
      [ListLocations, GetDeviceInfo 1])"
    by (simp add: handle_list_devices_def controls_of_def demo_env_def demo_controls_def
          fill_cache_def demo_device_info_def)
  from handle_list_devices_queries [OF run] run show ?thesis by blast
qed

lemma handle_list_devices_failure_aux:
  assumes "handle_list_devices e z lg = (r, lg')" "get_device_info e d = Inl err"
    "GetDeviceInfo d \<in> set (issued lg lg')"
  shows "r = Inl err \<and> (\<exists>pre. lg' = lg @ pre @ [GetDeviceInfo d] \<and> GetDeviceInfo d \<notin> set pre)"
proof -
  from assms(1) have "list_loop e z (controls_of e z) Map.empty [] lg = (r, lg')"
    by (simp add: handle_list_devices_def)
  from list_loop_failure [OF this assms(2)] obtain new where new: "lg' = lg @ new"
    "GetDeviceInfo d \<in> set new \<longrightarrow>
        r = Inl err \<and> (\<exists>pre. new = pre @ [GetDeviceInfo d] \<and> GetDeviceInfo d \<notin> set pre)"
    by blast
  from assms(3) new(1) have "GetDeviceInfo d \<in> set new" by simp
  with new show ?thesis by auto
qed

text \<open>
  C8. When a registry call made by \<open>handle_list_devices\<close> fails, the invocation returns
  that failure to its caller, and the failed call is the last call of the invocation and
  was made once: nothing is retried. Nothing of the failed invocation is kept: an
  invocation that starts after it, for any zone and any state of the registry, returns
  what it returns and issues the calls it issues when the failed invocation never ran.
\<close>

theorem handle_list_devices_failure:
  assumes "handle_list_devices e z lg = (r, lg')"
    and "GetDeviceInfo d \<in> set (issued lg lg')"
    and "get_device_info e d = Inl err"
  shows "r = Inl err
    \<and> (\<exists>pre. lg' = lg @ pre @ [GetDeviceInfo d] \<and> GetDeviceInfo d \<notin> set pre)
    \<and> (\<forall>e2 z2. fst (handle_list_devices e2 z2 lg') = fst (handle_list_devices e2 z2 lg)
          \<and> issued lg' (snd (handle_list_devices e2 z2 lg'))
              = issued lg (snd (handle_list_devices e2 z2 lg)))"
proof -
  have later: "fst (handle_list_devices e2 z2 l1) = fst (handle_list_devices e2 z2 l2)
     \<and> issued l1 (snd (handle_list_devices e2 z2 l1)) = issued l2 (snd (handle_list_devices e2 z2 l2))"
    for e2 z2 l1 l2
    by (subst (1 2) handle_list_devices_log [of e2 z2 l1],
        subst (1 2) handle_list_devices_log [of e2 z2 l2]) simp
  from handle_list_devices_failure_aux [OF assms(1) assms(3) assms(2)] later
  show ?thesis by blast
qed

theorem handle_list_devices_failure_witness:
  "handle_list_devices down_env ''A'' [] = (Inl ServiceException, [GetDeviceInfo 1])
   \<and> get_device_info down_env 1 = Inl ServiceException
   \<and> handle_list_devices demo_env ''A'' [GetDeviceInfo 1] =
       (fst (handle_list_devices demo_env ''A'' []), [GetDeviceInfo 1, GetDeviceInfo 1])"
proof -
  have run: "handle_list_devices down_env ''A'' [] = (Inl ServiceException, [GetDeviceInfo 1])"
    by (simp add: handle_list_devices_def controls_of_def down_env_def demo_env_def
          demo_controls_def fill_cache_def)
  have mem: "GetDeviceInfo 1 \<in> set (issued [] [GetDeviceInfo 1])"
    by (simp add: issued_def)
  have down: "get_device_info down_env 1 = Inl ServiceException"
    by (simp add: down_env_def demo_env_def)
  have solo: "snd (handle_list_devices demo_env ''A'' []) = [GetDeviceInfo 1]"
    by (simp add: handle_list_devices_def controls_of_def demo_env_def demo_controls_def
          fill_cache_def demo_device_info_def)
  from handle_list_devices_failure [OF run mem down]
  have "fst (handle_list_devices demo_env ''A'' [GetDeviceInfo 1]) = fst (handle_list_devices demo_env ''A'' [])
     \<and> issued [GetDeviceInfo 1] (snd (handle_list_devices demo_env ''A'' [GetDeviceInfo 1]))
        = issued [] (snd (handle_list_devices demo_env ''A'' []))"
    by blast
  moreover have "snd (handle_list_devices demo_env ''A'' [GetDeviceInfo 1])
      = [GetDeviceInfo 1] @ snd (handle_list_devices demo_env ''A'' [])"
    using handle_list_devices_log [of demo_env "''A''" "[GetDeviceInfo 1]"] by simp
  ultimately have "handle_list_devices demo_env ''A'' [GetDeviceInfo 1] =
       (fst (handle_list_devices demo_env ''A'' []), [GetDeviceInfo 1, GetDeviceInfo 1])"
    using solo by (simp add: prod_eq_iff)
  with run down show ?thesis by blast
qed

lemma handle_list_devices_qs:
  assumes "handle_list_devices e z lg = (r, lg')"
  shows "\<exists>qs. lg' = lg @ queries qs \<and> distinct (map cd_controlId qs)
           \<and> set qs \<subseteq> set (controls_of e z)"
proof -
  from assms have "list_loop e z (controls_of e z) Map.empty [] lg = (r, lg')"
    by (simp add: handle_list_devices_def)
  from list_loop_queries [OF this] show ?thesis by blast
qed

subsection \<open>Two calls at once\<close>

lemma other_neq [simp]: "other t \<noteq> t" "t \<noteq> other t"
  by (cases t; simp)+

lemma other_other [simp]: "other (other t) = t"
  by (cases t) simp_all

lemma tid_cases2: "u = t \<or> u = other t"
  by (cases t; cases u) simp_all

lemma loop_step_on_the_way:
  "loop_step e z cs control_cache zcs lg = (w', lg') \<Longrightarrow>
   on_the_way e z w' lg' (list_loop e z cs control_cache zcs lg)"
proof (cases cs)
  case Nil
  then show "loop_step e z cs control_cache zcs lg = (w', lg') \<Longrightarrow> ?thesis"
    by (auto simp: on_the_way_def)
next
  case (Cons c rest)
  assume step: "loop_step e z cs control_cache zcs lg = (w', lg')"
  obtain r l where f: "fill_cache e c control_cache lg = (r, l)"
    by (cases "fill_cache e c control_cache lg")
  show ?thesis
  proof (cases r)
    case (Inl err)
    with Cons f step show ?thesis by (auto simp: on_the_way_def)
  next
    case (Inr cache')
    show ?thesis
    proof (cases "cache' (cd_controlId c)")
      case None
      with Cons f Inr step show ?thesis by (auto simp: on_the_way_def)
    next
      case (Some cc)
      with Cons f Inr step show ?thesis by (auto simp: on_the_way_def)
    qed
  qed
qed

lemma loop_step_not_waiting: "fst (loop_step e z cs control_cache zcs lg) \<noteq> Waiting"
  by (cases cs) (auto split: prod.splits sum.splits option.splits)


lemma thread_step_running:
  assumes w: "workers s t = Running cs control_cache zcs"
    and o: "owner s = Some t"
    and way: "on_the_way (es t) z (workers s t) (sys_calls s) target"
  shows "on_the_way (es t) z (workers (thread_step es z t s) t)
            (sys_calls (thread_step es z t s)) target
       \<and> holds_lock t (thread_step es z t s)
       \<and> workers (thread_step es z t s) (other t) = workers s (other t)"
proof -
  obtain w' lg' where ls: "loop_step (es t) z cs control_cache zcs (sys_calls s) = (w', lg')"
    by (cases "loop_step (es t) z cs control_cache zcs (sys_calls s)")
  have s1: "thread_step es z t s =
      s\<lparr>owner := (case w' of Finished r \<Rightarrow> None | _ \<Rightarrow> Some t), sys_calls := lg',
        workers := (workers s)(t := w')\<rparr>"
    using w o ls by (simp add: thread_step_def)
  from way w have tgt: "list_loop (es t) z cs control_cache zcs (sys_calls s) = target"
    by (simp add: on_the_way_def)
  from loop_step_on_the_way [OF ls] tgt have 1: "on_the_way (es t) z w' lg' target" by simp
  have nw: "w' \<noteq> Waiting"
    using loop_step_not_waiting [of "es t" z cs control_cache zcs "sys_calls s"] ls by simp
  have 2: "holds_lock t (thread_step es z t s)"
    unfolding s1 using nw by (cases w') (simp_all add: holds_lock_def)
  show ?thesis using 1 2 unfolding s1 by simp
qed

lemma thread_step_inv:
  assumes inv: "serial_inv es z lg s"
  shows "serial_inv es z lg (thread_step es z t s)"
proof (cases "workers s t")
  case (Finished r)
  then have "thread_step es z t s = s" by (simp add: thread_step_def)
  with inv show ?thesis by simp
next
  case Waiting
  show ?thesis
  proof (cases "owner s = None")
    case False
    with Waiting have "thread_step es z t s = s" by (auto simp: thread_step_def)
    with inv show ?thesis by simp
  next
    case True
    let ?s1 = "s\<lparr>owner := Some t,
                  workers := (workers s)(t := Running (controls_of (es t) z) Map.empty [])\<rparr>"
    have s1: "thread_step es z t s = ?s1" using Waiting True by (simp add: thread_step_def)
    have hl: "holds_lock t ?s1" by (simp add: holds_lock_def)
    from inv consider
      (init) "workers s T1 = Waiting" "workers s T2 = Waiting" "sys_calls s = lg"
    | (solo) u where "workers s (other u) = Waiting" "holds_lock u s"
        "on_the_way (es u) z (workers s u) (sys_calls s) (handle_list_devices (es u) z lg)"
    | (snd) u r lg1 where "workers s (other u) = Finished r"
        "handle_list_devices (es (other u)) z lg = (r, lg1)" "holds_lock u s"
        "on_the_way (es u) z (workers s u) (sys_calls s) (handle_list_devices (es u) z lg1)"
      unfolding serial_inv_def by blast
    then show ?thesis
    proof cases
      case init
      have ow: "workers ?s1 (other t) = Waiting"
        using init(1,2) by (cases t) simp_all
      have "on_the_way (es t) z (workers ?s1 t) (sys_calls ?s1) (handle_list_devices (es t) z lg)"
        using init(3) by (simp add: on_the_way_def handle_list_devices_def)
      with ow hl show ?thesis unfolding s1 serial_inv_def by blast
    next
      case solo
      from solo(3) Waiting have ut: "u \<noteq> t" by (auto simp: on_the_way_def)
      then have tu: "t = other u" using tid_cases2 [of t u] by auto
      from solo(2) True have "\<forall>cs c zcs. workers s u \<noteq> Running cs c zcs"
        by (auto simp: holds_lock_def)
      with solo(3) obtain r where r: "workers s u = Finished r"
        "handle_list_devices (es u) z lg = (r, sys_calls s)"
        by (cases "workers s u") (auto simp: on_the_way_def)
      have 1: "workers ?s1 (other t) = Finished r" using r(1) ut tu by simp
      have 2: "handle_list_devices (es (other t)) z lg = (r, sys_calls s)" using r(2) tu by simp
      have 3: "on_the_way (es t) z (workers ?s1 t) (sys_calls ?s1)
          (handle_list_devices (es t) z (sys_calls s))"
        by (simp add: on_the_way_def handle_list_devices_def)
      from 1 2 3 hl show ?thesis unfolding s1 serial_inv_def by blast
    next
      case snd
      from snd(1) Waiting have "t \<noteq> other u" by auto
      moreover from snd(4) Waiting have "t \<noteq> u" by (auto simp: on_the_way_def)
      ultimately show ?thesis using tid_cases2 [of t u] by auto
    qed
  qed
next
  case (Running cs control_cache zcs)
  show ?thesis
  proof (cases "owner s = Some t")
    case False
    with Running have "thread_step es z t s = s" by (simp add: thread_step_def)
    with inv show ?thesis by simp
  next
    case True
    from inv consider
      (init) "workers s T1 = Waiting" "workers s T2 = Waiting" "sys_calls s = lg"
    | (solo) u where "workers s (other u) = Waiting" "holds_lock u s"
        "on_the_way (es u) z (workers s u) (sys_calls s) (handle_list_devices (es u) z lg)"
    | (snd) u r lg1 where "workers s (other u) = Finished r"
        "handle_list_devices (es (other u)) z lg = (r, lg1)" "holds_lock u s"
        "on_the_way (es u) z (workers s u) (sys_calls s) (handle_list_devices (es u) z lg1)"
      unfolding serial_inv_def by blast
    then show ?thesis
    proof cases
      case init
      with Running show ?thesis by (cases t) simp_all
    next
      case solo
      from solo(1) Running have "t \<noteq> other u" by auto
      then have tu: "u = t" using tid_cases2 [of t u] by auto
      from thread_step_running [OF Running True, of es z "handle_list_devices (es t) z lg"]
        solo(1,3) tu
      show ?thesis unfolding serial_inv_def by auto
    next
      case snd
      from snd(1) Running have "t \<noteq> other u" by auto
      then have tu: "u = t" using tid_cases2 [of t u] by auto
      from thread_step_running [OF Running True, of es z "handle_list_devices (es t) z lg1"]
        snd(1,2,4) tu
      show ?thesis unfolding serial_inv_def by auto
    qed
  qed
qed

lemma run_schedule_inv:
  "serial_inv es z lg s \<Longrightarrow> serial_inv es z lg (run_schedule es z sched s)"
  by (induction sched arbitrary: s) (simp_all add: thread_step_inv)

lemma two_calls_inv: "serial_inv es z lg (two_calls es z sched lg)"
  unfolding two_calls_def by (rule run_schedule_inv) (simp add: serial_inv_def)

text \<open>
  Both calls finish when each thread is let move often enough: here thread 1 first, one
  move to take the lock and one per descriptor and one to return, then thread 2.
\<close>

lemma run_schedule_append:
  "run_schedule es z (xs @ ys) s = run_schedule es z ys (run_schedule es z xs s)"
  by (induction xs arbitrary: s) simp_all

lemma run_schedule_finished:
  "workers s t = Finished r \<Longrightarrow> run_schedule es z (replicate n t) s = s"
  by (induction n) (simp_all add: thread_step_def)

lemma run_schedule_body:
  "workers s t = Running cs control_cache zcs \<Longrightarrow> owner s = Some t \<Longrightarrow>
   (\<exists>r. workers (run_schedule es z (replicate (Suc (length cs)) t) s) t = Finished r)
   \<and> owner (run_schedule es z (replicate (Suc (length cs)) t) s) = None
   \<and> workers (run_schedule es z (replicate (Suc (length cs)) t) s) (other t) = workers s (other t)"
proof (induction cs arbitrary: s control_cache zcs)
  case Nil
  then show ?case by (simp add: thread_step_def)
next
  case (Cons c rest)
  obtain w' lg' where ls: "loop_step (es t) z (c # rest) control_cache zcs (sys_calls s) = (w', lg')"
    by (cases "loop_step (es t) z (c # rest) control_cache zcs (sys_calls s)")
  let ?s1 = "s\<lparr>owner := (case w' of Finished r \<Rightarrow> None | _ \<Rightarrow> Some t), sys_calls := lg',
        workers := (workers s)(t := w')\<rparr>"
  have s1: "thread_step es z t s = ?s1"
    using Cons.prems ls by (simp add: thread_step_def)
  have run: "run_schedule es z (replicate (Suc (length (c # rest))) t) s =
      run_schedule es z (replicate (Suc (length rest)) t) ?s1"
    using s1 by simp
  from ls consider (fin) r where "w' = Finished r"
    | (go) cache' zcs' where "w' = Running rest cache' zcs'"
    by (auto split: prod.splits sum.splits option.splits)
  then show ?case
  proof cases
    case fin
    then have w: "workers ?s1 t = Finished r" by simp
    from run_schedule_finished [OF w, of es z "Suc (length rest)"] fin
    show ?thesis unfolding run by simp
  next
    case go
    then have w: "workers ?s1 t = Running rest cache' zcs'" and o: "owner ?s1 = Some t"
      by simp_all
    from Cons.IH [OF w o] show ?thesis unfolding run by simp
  qed
qed

lemma two_calls_can_finish:
  "\<exists>r1 r2.
     workers (two_calls es z
        (replicate (Suc (Suc (length (controls_of (es T1) z)))) T1
         @ replicate (Suc (Suc (length (controls_of (es T2) z)))) T2) lg) T1 = Finished r1
   \<and> workers (two_calls es z
        (replicate (Suc (Suc (length (controls_of (es T1) z)))) T1
         @ replicate (Suc (Suc (length (controls_of (es T2) z)))) T2) lg) T2 = Finished r2"
proof -
  let ?s0 = "\<lparr>owner = None, sys_calls = lg, workers = (\<lambda>t. Waiting)\<rparr>"
  let ?n1 = "length (controls_of (es T1) z)" and ?n2 = "length (controls_of (es T2) z)"
  let ?a = "thread_step es z T1 ?s0"
  have a: "workers ?a T1 = Running (controls_of (es T1) z) Map.empty []" "owner ?a = Some T1"
    "workers ?a T2 = Waiting"
    by (simp_all add: thread_step_def)
  let ?b = "run_schedule es z (replicate (Suc ?n1) T1) ?a"
  from run_schedule_body [OF a(1,2), of es z] a(3) obtain r1 where
    b: "workers ?b T1 = Finished r1" "owner ?b = None" "workers ?b T2 = Waiting"
    by auto
  let ?c = "thread_step es z T2 ?b"
  have c: "workers ?c T2 = Running (controls_of (es T2) z) Map.empty []" "owner ?c = Some T2"
    "workers ?c T1 = Finished r1"
    using b by (simp_all add: thread_step_def)
  let ?d = "run_schedule es z (replicate (Suc ?n2) T2) ?c"
  from run_schedule_body [OF c(1,2), of es z] c(3) obtain r2 where
    d: "workers ?d T2 = Finished r2" "workers ?d T1 = Finished r1"
    by auto
  have "two_calls es z (replicate (Suc (Suc ?n1)) T1 @ replicate (Suc (Suc ?n2)) T2) lg = ?d"
    by (simp add: two_calls_def run_schedule_append)
  with d show ?thesis by auto
qed

lemmas two_calls_simps = two_calls_def demo_schedule_def demo_envs_def thread_step_def
  handle_list_devices_def controls_of_def demo_env_def demo_controls_def fill_cache_def
  demo_device_info_def blind_result_def

text \<open>
  C6, as stated, fails: two calls for zone B on two threads that take turns both finish,
  and the registry has been asked twice for the one controlId the zone has.
\<close>

theorem two_calls_counterexample:
  "workers (two_calls demo_envs ''B'' demo_schedule []) T1 = Finished blind_result
   \<and> workers (two_calls demo_envs ''B'' demo_schedule []) T2 = Finished blind_result
   \<and> sys_calls (two_calls demo_envs ''B'' demo_schedule []) = [GetDeviceInfo 2, GetDeviceInfo 2]
   \<and> map cd_controlId (controls_of demo_env ''B'') = [20]"
  by (simp add: two_calls_simps)

text \<open>
  C6, amended. The lock serializes two calls of \<open>handle_list_devices\<close> for the same
  zone: however the two threads are scheduled, once both calls have finished the lock is
  free and the results and the log are those of the two calls run one after the other,
  in one of the two orders, the second starting on the log the first left. Within each
  call the registry is asked at most once per distinct controlId, so the log holds the
  queries of one call followed by the queries of the other and the pair asks at most
  twice per distinct controlId: the cache of one call is not seen by the other. (That
  both calls can finish is \<open>two_calls_can_finish\<close>.)
\<close>

theorem two_calls_serialized:
  assumes f1: "workers (two_calls es z sched lg) T1 = Finished r1"
    and f2: "workers (two_calls es z sched lg) T2 = Finished r2"
  shows "owner (two_calls es z sched lg) = None
    \<and> ((\<exists>lg1. handle_list_devices (es T1) z lg = (r1, lg1)
              \<and> handle_list_devices (es T2) z lg1 = (r2, sys_calls (two_calls es z sched lg)))
       \<or> (\<exists>lg1. handle_list_devices (es T2) z lg = (r2, lg1)
              \<and> handle_list_devices (es T1) z lg1 = (r1, sys_calls (two_calls es z sched lg))))
    \<and> (\<exists>qa qb. sys_calls (two_calls es z sched lg) = lg @ queries qa @ queries qb
          \<and> distinct (map cd_controlId qa)
          \<and> distinct (map cd_controlId qb)
          \<and> set (qa @ qb) \<subseteq> set (controls_of (es T1) z) \<union> set (controls_of (es T2) z)
          \<and> (\<forall>c. count_list (map cd_controlId (qa @ qb)) c \<le> 2))"
proof -
  let ?s = "two_calls es z sched lg"
  have "serial_inv es z lg ?s" by (rule two_calls_inv)
  then consider
      (init) "workers ?s T1 = Waiting"
    | (solo) u where "workers ?s (other u) = Waiting"
    | (snd) u r lg1 where "workers ?s (other u) = Finished r"
        "handle_list_devices (es (other u)) z lg = (r, lg1)" "holds_lock u ?s"
        "on_the_way (es u) z (workers ?s u) (sys_calls ?s) (handle_list_devices (es u) z lg1)"
    unfolding serial_inv_def by blast
  then show ?thesis
  proof cases
    case init
    with f1 show ?thesis by simp
  next
    case solo
    with f1 f2 show ?thesis by (cases u) simp_all
  next
    case snd
    obtain ru where ru: "workers ?s u = Finished ru"
      using f1 f2 by (cases u) simp_all
    from snd(3) ru have own: "owner ?s = None" by (simp add: holds_lock_def)
    from snd(4) ru have last: "handle_list_devices (es u) z lg1 = (ru, sys_calls ?s)"
      by (simp add: on_the_way_def)
    from handle_list_devices_qs [OF snd(2)] obtain qa where qa:
      "lg1 = lg @ queries qa" "distinct (map cd_controlId qa)"
      "set qa \<subseteq> set (controls_of (es (other u)) z)" by blast
    from handle_list_devices_qs [OF last] obtain qb where qb:
      "sys_calls ?s = lg1 @ queries qb" "distinct (map cd_controlId qb)"
      "set qb \<subseteq> set (controls_of (es u) z)" by blast
    have "count_list (map cd_controlId qa) c \<le> 1" for c
      using qa(2) by (simp add: distinct_count_atmost_1 count_mset [symmetric] del: count_mset)
    moreover have "count_list (map cd_controlId qb) c \<le> 1" for c
      using qb(2) by (simp add: distinct_count_atmost_1 count_mset [symmetric] del: count_mset)
    ultimately have cnt: "count_list (map cd_controlId (qa @ qb)) c \<le> 2" for c
      using add_mono [of "count_list (map cd_controlId qa) c" 1 "count_list (map cd_controlId qb) c" 1]
      by simp
    have sub: "set (qa @ qb) \<subseteq> set (controls_of (es T1) z) \<union> set (controls_of (es T2) z)"
      using qa(3) qb(3) by (cases u) auto
    have log: "sys_calls ?s = lg @ queries qa @ queries qb" using qa(1) qb(1) by simp
    have order: "(\<exists>lg1. handle_list_devices (es T1) z lg = (r1, lg1)
              \<and> handle_list_devices (es T2) z lg1 = (r2, sys_calls ?s))
       \<or> (\<exists>lg1. handle_list_devices (es T2) z lg = (r2, lg1)
              \<and> handle_list_devices (es T1) z lg1 = (r1, sys_calls ?s))"
    proof (cases u)
      case T1
      with snd(1,2) last ru f1 f2 show ?thesis by auto
    next
      case T2
      with snd(1,2) last ru f1 f2 show ?thesis by auto
    qed
    from own order log qa(2) qb(2) sub cnt show ?thesis by blast
  qed
qed

theorem two_calls_serialized_witness:
  "workers (two_calls demo_envs ''B'' demo_schedule []) T1 = Finished blind_result
   \<and> workers (two_calls demo_envs ''B'' demo_schedule []) T2 = Finished blind_result
   \<and> owner (two_calls demo_envs ''B'' demo_schedule []) = None
    \<and> ((\<exists>lg1. handle_list_devices (demo_envs T1) ''B'' [] = (blind_result, lg1)
              \<and> handle_list_devices (demo_envs T2) ''B'' lg1 = (blind_result, sys_calls (two_calls demo_envs ''B'' demo_schedule [])))
       \<or> (\<exists>lg1. handle_list_devices (demo_envs T2) ''B'' [] = (blind_result, lg1)
              \<and> handle_list_devices (demo_envs T1) ''B'' lg1 = (blind_result, sys_calls (two_calls demo_envs ''B'' demo_schedule []))))
    \<and> (\<exists>qa qb. sys_calls (two_calls demo_envs ''B'' demo_schedule []) = [] @ queries qa @ queries qb
          \<and> distinct (map cd_controlId qa)
          \<and> distinct (map cd_controlId qb)
          \<and> set (qa @ qb) \<subseteq> set (controls_of (demo_envs T1) ''B'') \<union> set (controls_of (demo_envs T2) ''B'')
          \<and> (\<forall>c. count_list (map cd_controlId (qa @ qb)) c \<le> 2))"
proof -
  have f1: "workers (two_calls demo_envs ''B'' demo_schedule []) T1 = Finished blind_result"
    by (simp add: two_calls_simps)
  have f2: "workers (two_calls demo_envs ''B'' demo_schedule []) T2 = Finished blind_result"
    by (simp add: two_calls_simps)
  note th = two_calls_serialized [OF f1 f2]
  show ?thesis by (intro conjI f1 f2 th)
qed

subsection \<open>Correlating a zone with the registered locations\<close>

lemma shares_device_iff:
  "list_devices e (loc_locationId l) = Inr devs \<Longrightarrow>
   shares_device device_ids devs \<longleftrightarrow> loc_device_ids e l \<inter> set device_ids \<noteq> {}"
  by (auto simp: shares_device_def loc_device_ids_def)

lemma match_loop_ok:
  "\<forall>l \<in> set ls. \<exists>devs. list_devices e (loc_locationId l) = Inr devs \<Longrightarrow>
   match_loop e device_ids ls acc lg =
     (Inr (acc @ filter (\<lambda>l. loc_device_ids e l \<inter> set device_ids \<noteq> {}) ls),
      lg @ map (\<lambda>l. ListDevices (loc_locationId l)) ls)"
proof (induction ls arbitrary: acc lg)
  case Nil
  show ?case by simp
next
  case (Cons l ls)
  from Cons.prems obtain devs where devs: "list_devices e (loc_locationId l) = Inr devs"
    by auto
  from Cons.prems have rest: "\<forall>l \<in> set ls. \<exists>devs. list_devices e (loc_locationId l) = Inr devs"
    by simp
  show ?case
    using devs shares_device_iff [OF devs, of device_ids] Cons.IH [OF rest]
    by simp
qed

lemma match_loop_Inr:
  "match_loop e device_ids ls acc lg = (Inr m, lg') \<Longrightarrow>
   \<forall>l \<in> set ls. \<exists>devs. list_devices e (loc_locationId l) = Inr devs"
proof (induction ls arbitrary: acc lg)
  case Nil
  show ?case by simp
next
  case (Cons l ls)
  show ?case
  proof (cases "list_devices e (loc_locationId l)")
    case (Inl err)
    with Cons.prems show ?thesis by simp
  next
    case (Inr devs)
    with Cons.prems Cons.IH show ?thesis by (auto split: if_splits)
  qed
qed

lemma get_peac_locations_ok:
  assumes "device_answers e (ref_name zr)" and "locations_answer e"
  shows "\<exists>locs lg'. get_peac_locations e zr lg = (Inr locs, lg')"
proof -
  from assms(1) obtain devices lg1 where
    h: "handle_list_devices e (ref_name zr) lg = (Inr devices, lg1)"
    using list_loop_ok [of "controls_of e (ref_name zr)" e "ref_name zr" Map.empty "[]" lg]
    by (auto simp: device_answers_def handle_list_devices_def)
  from assms(2) obtain locations where
    l: "list_locations e = Inr locations"
    "\<forall>l \<in> set locations. \<exists>devs. list_devices e (loc_locationId l) = Inr devs"
    by (auto simp: locations_answer_def)
  have "get_peac_locations e zr lg =
      match_loop e (map zc_deviceId devices) locations [] (lg1 @ [ListLocations])"
    using h l(1) by (simp add: get_peac_locations_def)
  with match_loop_ok [OF l(2)] show ?thesis by simp
qed

text \<open>
  C7. \<open>get_peac_locations\<close> returns a list exactly when the zone's devices could be
  listed, the location registry answered and every location's devices could be listed;
  the list then holds exactly the registry's locations whose device ids meet the device
  ids of the zone's controls, in the order of the registry's answer. A location that
  shares no device with the zone is not in it.
\<close>

theorem get_peac_locations_matches:
  "fst (get_peac_locations e zr lg) = Inr matched \<longleftrightarrow>
     (\<exists>devices locations.
        fst (handle_list_devices e (ref_name zr) lg) = Inr devices
      \<and> list_locations e = Inr locations
      \<and> (\<forall>l \<in> set locations. \<exists>devs. list_devices e (loc_locationId l) = Inr devs)
      \<and> matched = filter (\<lambda>l. loc_device_ids e l \<inter> zc_deviceId ` set devices \<noteq> {}) locations)"
proof (cases "handle_list_devices e (ref_name zr) lg")
  case (Pair r lg1)
  show ?thesis
  proof (cases r)
    case (Inl err)
    with Pair show ?thesis by (simp add: get_peac_locations_def)
  next
    case (Inr devices)
    note devices = this
    show ?thesis
    proof (cases "list_locations e")
      case (Inl err)
      with Pair devices show ?thesis by (simp add: get_peac_locations_def)
    next
      case (Inr locations)
      have run: "get_peac_locations e zr lg =
          match_loop e (map zc_deviceId devices) locations [] (lg1 @ [ListLocations])"
        using Pair devices Inr by (simp add: get_peac_locations_def)
      show ?thesis
      proof (cases "\<forall>l \<in> set locations. \<exists>devs. list_devices e (loc_locationId l) = Inr devs")
        case True
        from match_loop_ok [OF True, of "map zc_deviceId devices" "[]" "lg1 @ [ListLocations]"]
        show ?thesis using Pair devices Inr True run by auto
      next
        case False
        have "fst (get_peac_locations e zr lg) \<noteq> Inr matched"
        proof
          assume "fst (get_peac_locations e zr lg) = Inr matched"
          then have "match_loop e (map zc_deviceId devices) locations []
              (lg1 @ [ListLocations]) = (Inr matched, snd (get_peac_locations e zr lg))"
            using run by (simp add: prod_eq_iff)
          from match_loop_Inr [OF this] False show False by blast
        qed
        with False Pair devices Inr show ?thesis by auto
      qed
    qed
  qed
qed

theorem get_peac_locations_matches_witness:
  "fst (get_peac_locations demo_env (Resolved zoneA) []) =
     Inr [\<lparr>loc_locationId = 1, loc_name = ''kitchen''\<rparr>, \<lparr>loc_locationId = 2, loc_name = ''hall''\<rparr>]
   \<and> (\<exists>devices locations.
        fst (handle_list_devices demo_env ''A'' []) = Inr devices
      \<and> list_locations demo_env = Inr locations
      \<and> [\<lparr>loc_locationId = 1, loc_name = ''kitchen''\<rparr>, \<lparr>loc_locationId = 2, loc_name = ''hall''\<rparr>]
          = filter (\<lambda>l. loc_device_ids demo_env l \<inter> zc_deviceId ` set devices \<noteq> {}) locations)"
proof -
  have run: "fst (get_peac_locations demo_env (Resolved zoneA) []) =
     Inr [\<lparr>loc_locationId = 1, loc_name = ''kitchen''\<rparr>, \<lparr>loc_locationId = 2, loc_name = ''hall''\<rparr>]"
    by (simp add: get_peac_locations_def handle_list_devices_def controls_of_def demo_env_def
          demo_controls_def fill_cache_def demo_device_info_def zoneA_def demo_locations_def
          demo_list_devices_def shares_device_def)
  have nm: "ref_name (Resolved zoneA) = ''A''" by (simp add: zoneA_def)
  from get_peac_locations_matches [THEN iffD1, OF run] run show ?thesis
    unfolding nm by blast
qed

subsection \<open>The pose callbacks\<close>

text \<open>
  C2. A pose that tf transforms and that lies in no zone leaves the whole state as it
  was: \<open>current_zones\<close> and \<open>previous_zones\<close> keep their values, nothing is published and
  no registry call is made.
\<close>

theorem pose_cb_empty_membership:
  assumes "transformPose e ''map'' (restamped msg) = Inr msg_trans"
    and "in_which e (pose_point msg_trans) = []"
  shows "pose_cb e msg s = (Inr (), s)"
  using assms by (simp add: pose_cb_def)

theorem pose_cb_empty_membership_witness:
  "transformPose demo_env ''map'' (restamped (pose_at 20 20)) =
      Inr ((pose_at 20 20)\<lparr>ps_header := \<lparr>h_seq = 0, h_stamp = 0, h_frame_id = ''map''\<rparr>\<rparr>)
   \<and> in_which demo_env (20, 20) = []
   \<and> pose_cb demo_env (pose_at 20 20)
        \<lparr>current_zones = [zoneA, zoneB], previous_zones = [], published = [], calls = []\<rparr>
      = (Inr (), \<lparr>current_zones = [zoneA, zoneB], previous_zones = [], published = [], calls = []\<rparr>)"
proof -
  have t: "transformPose demo_env ''map'' (restamped (pose_at 20 20)) =
      Inr ((pose_at 20 20)\<lparr>ps_header := \<lparr>h_seq = 0, h_stamp = 0, h_frame_id = ''map''\<rparr>\<rparr>)"
    by (simp add: demo_env_def restamped_def pose_at_def)
  have w: "in_which demo_env (20, 20) = []"
    by (simp add: demo_env_def demo_in_which_def)
  have pt: "pose_point ((pose_at 20 20)\<lparr>ps_header := \<lparr>h_seq = 0, h_stamp = 0, h_frame_id = ''map''\<rparr>\<rparr>) = (20, 20)"
    by (simp add: pose_point_def pose_at_def)
  from pose_cb_empty_membership [OF t, of "\<lparr>current_zones = [zoneA, zoneB], previous_zones = [], published = [], calls = []\<rparr>"] w pt t
  show ?thesis by simp
qed

text \<open>
  C9. An odometry message and a pose-with-covariance message are handled as
  \<open>pose_cb\<close> handles the plain pose with the same header and the same pose: same result,
  same state, same published messages. The twist, the child frame and the covariances do
  not occur on the right-hand side.
\<close>

theorem odom_and_covariance_as_pose:
  "odom_cb e \<lparr>od_header = h, od_child_frame_id = c,
              od_pose = \<lparr>pwc_pose = p, pwc_covariance = cov\<rparr>, od_twist = tw\<rparr> s
     = pose_cb e \<lparr>ps_header = h, ps_pose = p\<rparr> s
   \<and> pose_with_cov_cb e \<lparr>pcs_header = h, pcs_pose = \<lparr>pwc_pose = p, pwc_covariance = cov\<rparr>\<rparr> s
     = pose_cb e \<lparr>ps_header = h, ps_pose = p\<rparr> s"
  by (simp add: odom_cb_def pose_with_cov_cb_def)

theorem odom_and_covariance_as_pose_witness:
  "odom_cb demo_env
     \<lparr>od_header = \<lparr>h_seq = 0, h_stamp = 5, h_frame_id = ''odom''\<rparr>, od_child_frame_id = ''base'',
      od_pose = \<lparr>pwc_pose = \<lparr>position = \<lparr>p_x = 20, p_y = 20, p_z = 0\<rparr>,
                              orientation = \<lparr>q_x = 0, q_y = 0, q_z = 0, q_w = 1\<rparr>\<rparr>,
                 pwc_covariance = [1, 2]\<rparr>,
      od_twist = \<lparr>twc_twist = \<lparr>tw_linear = \<lparr>p_x = 1, p_y = 0, p_z = 0\<rparr>,
                               tw_angular = \<lparr>p_x = 0, p_y = 0, p_z = 1\<rparr>\<rparr>,
                  twc_covariance = [3]\<rparr>\<rparr> init_state
     = pose_cb demo_env (pose_at 20 20) init_state
   \<and> pose_with_cov_cb demo_env
     \<lparr>pcs_header = \<lparr>h_seq = 0, h_stamp = 5, h_frame_id = ''odom''\<rparr>,
      pcs_pose = \<lparr>pwc_pose = \<lparr>position = \<lparr>p_x = 20, p_y = 20, p_z = 0\<rparr>,
                              orientation = \<lparr>q_x = 0, q_y = 0, q_z = 0, q_w = 1\<rparr>\<rparr>,
                 pwc_covariance = [1, 2]\<rparr>\<rparr> init_state
     = pose_cb demo_env (pose_at 20 20) init_state"
  unfolding pose_at_def by (rule odom_and_covariance_as_pose)

subsection \<open>Localizing in a zone\<close>

text \<open>
  C4, as stated, fails: the sentinel the code compares with is \<open>'NONE'\<close>, in capitals.
  The request "none" is looked up as a zone name; where no zone has that name the lookup
  raises and no localization request is dispatched at all.
\<close>

theorem localize_in_zone_none_counterexample:
  "localize_in_zone demo_env ''none'' [] = (Inl KeyError, [])"
  by (simp add: localize_in_zone_def demo_env_def)

text \<open>
  C4, amended. With the input "NONE", \<open>localize_in_zone\<close> dispatches the unconstrained
  global localization request. With any other input it looks the zone up: when no zone
  has that name it fails with KeyError and dispatches nothing; otherwise it dispatches one
  polygon-constrained request whose polygon is the zone's vertices and whose frame is the
  zone's frame identifier. The result is what the localization service returned.
\<close>

theorem localize_in_zone_dispatch:
  "localize_in_zone e ''NONE'' lg = (global_localization e, lg @ [GlobalLocalization])
   \<and> (z \<noteq> ''NONE'' \<longrightarrow> zones e z = None \<longrightarrow> localize_in_zone e z lg = (Inl KeyError, lg))
   \<and> (z \<noteq> ''NONE'' \<longrightarrow> zones e z = Some zn \<longrightarrow>
        (\<exists>req. localize_in_zone e z lg = (polygon_localization e req, lg @ [PolygonLocalization req])
             \<and> pgs_polygon req = z_vertices zn
             \<and> h_frame_id (pgs_header req) = z_frame_id zn))"
proof (intro conjI impI)
  show "localize_in_zone e ''NONE'' lg = (global_localization e, lg @ [GlobalLocalization])"
    by (cases "global_localization e") (simp_all add: localize_in_zone_def)
next
  assume "z \<noteq> ''NONE''" "zones e z = None"
  then show "localize_in_zone e z lg = (Inl KeyError, lg)"
    by (simp add: localize_in_zone_def)
next
  assume z: "z \<noteq> ''NONE''" "zones e z = Some zn"
  let ?req = "\<lparr>pgs_header = \<lparr>h_seq = 0, h_stamp = 0, h_frame_id = z_frame_id zn\<rparr>,
               pgs_polygon = zm_zone (to_msg zn)\<rparr>"
  have "localize_in_zone e z lg = (polygon_localization e ?req, lg @ [PolygonLocalization ?req])"
    using z by (cases "polygon_localization e ?req") (simp_all add: localize_in_zone_def Let_def)
  moreover have "pgs_polygon ?req = z_vertices zn" by (simp add: to_msg_def)
  moreover have "h_frame_id (pgs_header ?req) = z_frame_id zn" by simp
  ultimately show "\<exists>req. localize_in_zone e z lg = (polygon_localization e req, lg @ [PolygonLocalization req])
             \<and> pgs_polygon req = z_vertices zn
             \<and> h_frame_id (pgs_header req) = z_frame_id zn"
    by blast
qed

theorem localize_in_zone_dispatch_witness:
  "localize_in_zone demo_env ''NONE'' [] = (Inr (), [GlobalLocalization])
   \<and> ''unknown'' \<noteq> ''NONE'' \<and> zones demo_env ''unknown'' = None
   \<and> localize_in_zone demo_env ''unknown'' [] = (Inl KeyError, [])
   \<and> ''A'' \<noteq> ''NONE'' \<and> zones demo_env ''A'' = Some zoneA
   \<and> (\<exists>req. localize_in_zone demo_env ''A'' [] = (polygon_localization demo_env req, [PolygonLocalization req])
             \<and> pgs_polygon req = [(0, 0), (10, 0), (10, 10), (0, 10)]
             \<and> h_frame_id (pgs_header req) = ''map'')"
proof -
  have g: "global_localization demo_env = Inr ()" by (simp add: demo_env_def)
  have u: "''unknown'' \<noteq> ''NONE''" "zones demo_env ''unknown'' = None"
    by (simp_all add: demo_env_def)
  have a: "''A'' \<noteq> ''NONE''" "zones demo_env ''A'' = Some zoneA"
    by (simp_all add: demo_env_def)
  have za: "z_vertices zoneA = [(0, 0), (10, 0), (10, 10), (0, 10)]" "z_frame_id zoneA = ''map''"
    by (simp_all add: zoneA_def)
  from localize_in_zone_dispatch [of demo_env "[]" "''unknown''"] g u
  have 1: "localize_in_zone demo_env ''NONE'' [] = (Inr (), [GlobalLocalization])"
    and 2: "localize_in_zone demo_env ''unknown'' [] = (Inl KeyError, [])"
    by simp_all
  from localize_in_zone_dispatch [of demo_env "[]" "''A''" zoneA] a za
  have 3: "\<exists>req. localize_in_zone demo_env ''A'' [] = (polygon_localization demo_env req, [PolygonLocalization req])
             \<and> pgs_polygon req = [(0, 0), (10, 0), (10, 10), (0, 10)]
             \<and> h_frame_id (pgs_header req) = ''map''"
    by simp
  from 1 2 3 u a show ?thesis by blast
qed

subsection \<open>Transitions\<close>

lemma set_diff_set [simp]: "set (set_diff xs ys) = set xs - set ys"
  by (auto simp: set_diff_def)

lemma set_diff_distinct [simp]: "distinct (set_diff xs ys)"
  by (simp add: set_diff_def)

lemma set_iter_perm:
  assumes "\<forall>xs. mset (set_iter e xs) = mset xs"
  shows "set (set_iter e xs) = set xs" and "distinct (set_iter e xs) = distinct xs"
proof -
  from assms have m: "mset (set_iter e xs) = mset xs" by blast
  from m show "set (set_iter e xs) = set xs" by (rule mset_eq_setD)
  from m show "distinct (set_iter e xs) = distinct xs" by (rule mset_eq_imp_distinct_iff)
qed

lemma publish_transitions_effect:
  "publish_transitions e a zs s = (r, s') \<Longrightarrow>
   current_zones s' = current_zones s \<and> previous_zones s' = previous_zones s \<and>
   (\<exists>n new. n \<le> length zs \<and> (r = Inr () \<longrightarrow> n = length zs)
       \<and> published s' = published s @ new
       \<and> event_keys new = map (\<lambda>z. (a, to_msg z)) (take n zs))"
proof (induction zs arbitrary: s)
  case Nil
  then show ?case by (auto simp: event_keys_def)
next
  case (Cons z zs)
  obtain rl lg' where g: "get_peac_locations e (Resolved z) (calls s) = (rl, lg')"
    by (cases "get_peac_locations e (Resolved z) (calls s)")
  show ?case
  proof (cases rl)
    case (Inl err)
    with g Cons.prems have "r = Inl err" "s' = s\<lparr>calls := lg'\<rparr>" by simp_all
    then show ?thesis
      by (auto simp: event_keys_def intro!: exI [of _ "0::nat"])
  next
    case (Inr locs)
    let ?t = "\<lparr>tr_action = a, tr_zone = to_msg z, tr_peac_locations = locs\<rparr>"
    let ?s1 = "s\<lparr>published := published s @ [?t], calls := lg'\<rparr>"
    from g Inr Cons.prems have "publish_transitions e a zs ?s1 = (r, s')" by simp
    from Cons.IH [OF this] obtain n new where
      st: "current_zones s' = current_zones s" "previous_zones s' = previous_zones s"
      and n: "n \<le> length zs" "r = Inr () \<longrightarrow> n = length zs"
      and new: "published s' = (published s @ [?t]) @ new"
        "event_keys new = map (\<lambda>z. (a, to_msg z)) (take n zs)"
      by auto
    have "published s' = published s @ (?t # new)" using new(1) by simp
    moreover have "event_keys (?t # new) = map (\<lambda>z. (a, to_msg z)) (take (Suc n) (z # zs))"
      using new(2) by (simp add: event_keys_def)
    moreover have "Suc n \<le> length (z # zs)" using n(1) by simp
    moreover have "r = Inr () \<longrightarrow> Suc n = length (z # zs)" using n(2) by simp
    ultimately show ?thesis using st by blast
  qed
qed

lemma check_transition_effect:
  assumes "current_zones s \<noteq> []" and "check_transition e s = (r, s')"
  defines "full \<equiv> map (\<lambda>z. (EXIT, to_msg z)) (set_iter e (set_diff (previous_zones s) (current_zones s)))
                  @ map (\<lambda>z. (ENTER, to_msg z)) (set_iter e (set_diff (current_zones s) (previous_zones s)))"
  shows "current_zones s' = current_zones s \<and> previous_zones s' = previous_zones s \<and>
    (\<exists>new k. published s' = published s @ new \<and> event_keys new = take k full
        \<and> (r = Inr () \<longrightarrow> event_keys new = full))"
proof -
  let ?X = "set_iter e (set_diff (previous_zones s) (current_zones s))"
  let ?N = "set_iter e (set_diff (current_zones s) (previous_zones s))"
  obtain r1 s1 where p1: "publish_transitions e EXIT ?X s = (r1, s1)"
    by (cases "publish_transitions e EXIT ?X s")
  from publish_transitions_effect [OF p1] obtain n new1 where
    st1: "current_zones s1 = current_zones s" "previous_zones s1 = previous_zones s"
    and n: "n \<le> length ?X" "r1 = Inr () \<longrightarrow> n = length ?X"
    and new1: "published s1 = published s @ new1"
      "event_keys new1 = map (\<lambda>z. (EXIT, to_msg z)) (take n ?X)"
    by auto
  show ?thesis
  proof (cases r1)
    case (Inl err)
    with assms(1,2) p1 have res: "r = Inl err" "s' = s1" by (simp_all add: check_transition_def Let_def)
    have "event_keys new1 = take n full"
      using new1(2) n(1) by (simp add: full_def take_map)
    with res st1 new1(1) show ?thesis by blast
  next
    case (Inr u)
    with assms(1,2) p1 have p2: "publish_transitions e ENTER ?N s1 = (r, s')"
      by (simp add: check_transition_def Let_def)
    from publish_transitions_effect [OF p2] obtain m new2 where
      st2: "current_zones s' = current_zones s1" "previous_zones s' = previous_zones s1"
      and m: "m \<le> length ?N" "r = Inr () \<longrightarrow> m = length ?N"
      and new2: "published s' = published s1 @ new2"
        "event_keys new2 = map (\<lambda>z. (ENTER, to_msg z)) (take m ?N)"
      by auto
    from Inr n(2) have nX: "n = length ?X" by simp
    have keys: "event_keys (new1 @ new2) = take (length ?X + m) full"
      using new1(2) new2(2) nX by (simp add: full_def event_keys_def take_map)
    have "r = Inr () \<longrightarrow> event_keys (new1 @ new2) = full"
      using keys m(2) by (simp add: full_def)
    moreover have "published s' = published s @ (new1 @ new2)"
      using new1(1) new2(1) by simp
    ultimately show ?thesis using keys st1 st2 by metis
  qed
qed

lemma publish_transitions_ok:
  "correlation_succeeds e zs \<Longrightarrow> fst (publish_transitions e a zs s) = Inr ()"
proof (induction zs arbitrary: s)
  case Nil
  show ?case by simp
next
  case (Cons z zs)
  from Cons.prems have d: "device_answers e (ref_name (Resolved z))" and l: "locations_answer e"
    and rest: "correlation_succeeds e zs"
    by (auto simp: correlation_succeeds_def)
  from get_peac_locations_ok [OF d l, of "calls s"] obtain locs lg' where
    "get_peac_locations e (Resolved z) (calls s) = (Inr locs, lg')" by blast
  with Cons.IH [OF rest] show ?case by simp
qed

lemma correlation_succeeds_append:
  "correlation_succeeds e (xs @ ys) \<Longrightarrow> correlation_succeeds e xs \<and> correlation_succeeds e ys"
  by (auto simp: correlation_succeeds_def)

lemma check_transition_ok:
  assumes "correlation_succeeds e
      (set_iter e (set_diff (previous_zones s) (current_zones s))
       @ set_iter e (set_diff (current_zones s) (previous_zones s)))"
  shows "fst (check_transition e s) = Inr ()"
proof (cases "current_zones s = []")
  case True
  then show ?thesis by (simp add: check_transition_def)
next
  case False
  let ?X = "set_iter e (set_diff (previous_zones s) (current_zones s))"
  let ?N = "set_iter e (set_diff (current_zones s) (previous_zones s))"
  from correlation_succeeds_append [OF assms]
  have x: "correlation_succeeds e ?X" and n: "correlation_succeeds e ?N" by simp_all
  obtain s1 where p1: "publish_transitions e EXIT ?X s = (Inr (), s1)"
    using publish_transitions_ok [OF x, of EXIT s]
    by (cases "publish_transitions e EXIT ?X s") simp
  show ?thesis
    using False p1 publish_transitions_ok [OF n, of ENTER s1]
    by (simp add: check_transition_def Let_def)
qed

lemma pose_cb_nonempty:
  assumes "transformPose e ''map'' (restamped msg) = Inr msg_trans"
    and "in_which e (pose_point msg_trans) \<noteq> []"
  shows "pose_cb e msg s =
     check_transition e (s\<lparr>previous_zones := current_zones s,
                           current_zones := in_which e (pose_point msg_trans)\<rparr>)"
  using assms by (simp add: pose_cb_def Let_def)

lemmas demo_simps = pose_cb_def check_transition_def get_peac_locations_def
  handle_list_devices_def controls_of_def demo_env_def down_env_def demo_controls_def
  fill_cache_def demo_device_info_def zoneA_def zoneB_def demo_locations_def
  demo_list_devices_def shares_device_def demo_in_which_def pose_at_def restamped_def
  pose_point_def set_diff_def init_state_def in_both_state_def to_msg_def at_map_def

text \<open>
  C1, as stated, fails: the robot is in A and B, the device registry is unreachable and
  the pose (12, 12), inside B only, arrives. The membership is non-empty and the state is
  updated, so A is in previous - current, but the correlation raises before anything is
  published: no EXIT message for A is emitted.
\<close>

theorem pose_cb_exit_lost_counterexample:
  "pose_cb down_env (pose_at 12 12) in_both_state =
     (Inl ServiceException,
      \<lparr>current_zones = [zoneB], previous_zones = [zoneA, zoneB], published = [],
       calls = [GetDeviceInfo 1]\<rparr>)
   \<and> zoneA \<notin> set [zoneB]"
  by (simp add: demo_simps)

text \<open>
  C1, amended. For every pose that tf transforms and whose membership is non-empty,
  \<open>pose_cb\<close> sets \<open>previous_zones\<close> to the old \<open>current_zones\<close> and \<open>current_zones\<close>
  to the membership, whatever happens afterwards. What it publishes is always an initial
  part of this sequence: one EXIT message for each zone of previous - current, then one
  ENTER message for each zone of current - previous; and it is the whole sequence
  whenever the callback returns normally. The callback does return normally when the
  registry can correlate the exited and entered zones: for every control descriptor
  configured for one of them the device registry answers for the descriptor's device
  with an answer that lists the descriptor's control, and the location registry returns
  its locations and the devices of each. The differences are those of the zone names as
  long as no two zones involved share a name. The order inside each group is the
  iteration order of a Python set, any permutation.
\<close>

theorem pose_cb_transition:
  assumes iter: "\<forall>xs. mset (set_iter e xs) = mset xs"
    and tr: "transformPose e ''map'' (restamped msg) = Inr msg_trans"
    and within: "in_which e (pose_point msg_trans) \<noteq> []"
    and names: "inj_on z_name (set (current_zones s) \<union> set (in_which e (pose_point msg_trans)))"
    and run: "pose_cb e msg s = (r, s')"
  shows "previous_zones s' = current_zones s
    \<and> current_zones s' = in_which e (pose_point msg_trans)
    \<and> (\<exists>new exited entered k.
          published s' = published s @ new
        \<and> distinct (map z_name exited)
        \<and> z_name ` set exited = z_name ` set (previous_zones s') - z_name ` set (current_zones s')
        \<and> set exited = set (previous_zones s') - set (current_zones s')
        \<and> distinct (map z_name entered)
        \<and> z_name ` set entered = z_name ` set (current_zones s') - z_name ` set (previous_zones s')
        \<and> set entered = set (current_zones s') - set (previous_zones s')
        \<and> event_keys new =
            take k (map (\<lambda>z. (EXIT, to_msg z)) exited @ map (\<lambda>z. (ENTER, to_msg z)) entered)
        \<and> (correlation_succeeds e (exited @ entered) \<longrightarrow> r = Inr ())
        \<and> (r = Inr () \<longrightarrow>
             event_keys new =
               map (\<lambda>z. (EXIT, to_msg z)) exited @ map (\<lambda>z. (ENTER, to_msg z)) entered))"
proof -
  let ?w = "in_which e (pose_point msg_trans)"
  let ?s1 = "s\<lparr>previous_zones := current_zones s, current_zones := ?w\<rparr>"
  let ?X = "set_iter e (set_diff (previous_zones ?s1) (current_zones ?s1))"
  let ?N = "set_iter e (set_diff (current_zones ?s1) (previous_zones ?s1))"
  have ct: "check_transition e ?s1 = (r, s')"
    using pose_cb_nonempty [OF tr within, of s] run by simp
  have ne: "current_zones ?s1 \<noteq> []" using within by simp
  from check_transition_effect [OF ne ct] obtain new k where
    st: "current_zones s' = ?w" "previous_zones s' = current_zones s"
    and new: "published s' = published ?s1 @ new"
      "event_keys new = take k (map (\<lambda>z. (EXIT, to_msg z)) ?X @ map (\<lambda>z. (ENTER, to_msg z)) ?N)"
      "r = Inr () \<longrightarrow>
         event_keys new = map (\<lambda>z. (EXIT, to_msg z)) ?X @ map (\<lambda>z. (ENTER, to_msg z)) ?N"
    by auto
  have ok: "correlation_succeeds e (?X @ ?N) \<longrightarrow> r = Inr ()"
  proof
    assume "correlation_succeeds e (?X @ ?N)"
    from check_transition_ok [OF this] ct show "r = Inr ()" by simp
  qed
  have setX: "set ?X = set (current_zones s) - set ?w"
    using set_iter_perm(1) [OF iter] by simp
  have setN: "set ?N = set ?w - set (current_zones s)"
    using set_iter_perm(1) [OF iter] by simp
  have dX: "distinct ?X" and dN: "distinct ?N"
    using set_iter_perm(2) [OF iter] by simp_all
  have injX: "inj_on z_name (set ?X)" and injN: "inj_on z_name (set ?N)"
    using names setX setN by (auto intro: inj_on_subset)
  have dnX: "distinct (map z_name ?X)" using dX injX by (simp add: distinct_map)
  have dnN: "distinct (map z_name ?N)" using dN injN by (simp add: distinct_map)
  have nmX: "z_name ` set ?X = z_name ` set (current_zones s) - z_name ` set ?w"
    unfolding setX using names by (rule inj_on_image_set_diff [of z_name]) auto
  have nmN: "z_name ` set ?N = z_name ` set ?w - z_name ` set (current_zones s)"
    unfolding setN using names by (rule inj_on_image_set_diff [of z_name]) auto
  have pub: "published s' = published s @ new" using new(1) by simp
  show ?thesis
    unfolding st
    using pub dnX nmX setX dnN nmN setN new(2,3) ok
    by (intro conjI refl exI [of _ new] exI [of _ ?X] exI [of _ ?N] exI [of _ k]) simp_all
qed

theorem pose_cb_transition_witness:
  "(\<forall>xs. mset (set_iter demo_env xs) = mset xs)
   \<and> transformPose demo_env ''map'' (restamped (pose_at 12 12)) = Inr (at_map (pose_at 12 12))
   \<and> in_which demo_env (pose_point (at_map (pose_at 12 12))) \<noteq> []
   \<and> inj_on z_name (set (current_zones in_both_state)
        \<union> set (in_which demo_env (pose_point (at_map (pose_at 12 12)))))
   \<and> correlation_succeeds demo_env [zoneA, zoneB]
   \<and> pose_cb demo_env (pose_at 12 12) in_both_state = (Inr (), after_exit_state)
   \<and> previous_zones after_exit_state = current_zones in_both_state
    \<and> current_zones after_exit_state = in_which demo_env (pose_point (at_map (pose_at 12 12)))
    \<and> (\<exists>new exited entered k.
          published after_exit_state = published in_both_state @ new
        \<and> distinct (map z_name exited)
        \<and> z_name ` set exited = z_name ` set (previous_zones after_exit_state) - z_name ` set (current_zones after_exit_state)
        \<and> set exited = set (previous_zones after_exit_state) - set (current_zones after_exit_state)
        \<and> distinct (map z_name entered)
        \<and> z_name ` set entered = z_name ` set (current_zones after_exit_state) - z_name ` set (previous_zones after_exit_state)
        \<and> set entered = set (current_zones after_exit_state) - set (previous_zones after_exit_state)
        \<and> event_keys new =
            take k (map (\<lambda>z. (EXIT, to_msg z)) exited @ map (\<lambda>z. (ENTER, to_msg z)) entered)
        \<and> (correlation_succeeds demo_env (exited @ entered) \<longrightarrow> (Inr () :: error + unit) = Inr ())
        \<and> ((Inr () :: error + unit) = Inr () \<longrightarrow>
             event_keys new =
               map (\<lambda>z. (EXIT, to_msg z)) exited @ map (\<lambda>z. (ENTER, to_msg z)) entered))"
proof -
  have iter: "\<forall>xs. mset (set_iter demo_env xs) = mset xs"
    by (simp add: demo_env_def)
  have tr: "transformPose demo_env ''map'' (restamped (pose_at 12 12)) = Inr (at_map (pose_at 12 12))"
    by (simp add: demo_env_def restamped_def pose_at_def at_map_def)
  have w: "in_which demo_env (pose_point (at_map (pose_at 12 12))) = [zoneB]"
    by (simp add: demo_env_def demo_in_which_def pose_point_def pose_at_def at_map_def)
  have within: "in_which demo_env (pose_point (at_map (pose_at 12 12))) \<noteq> []"
    unfolding w by simp
  have names: "inj_on z_name (set (current_zones in_both_state)
      \<union> set (in_which demo_env (pose_point (at_map (pose_at 12 12)))))"
    unfolding w by (auto simp: inj_on_def in_both_state_def zoneA_def zoneB_def)
  have run: "pose_cb demo_env (pose_at 12 12) in_both_state = (Inr (), after_exit_state)"
    by (simp add: demo_simps after_exit_state_def)
  have cs: "correlation_succeeds demo_env [zoneA, zoneB]"
    by (simp add: correlation_succeeds_def device_answers_def locations_answer_def controls_of_def
          demo_env_def demo_controls_def demo_device_info_def demo_locations_def
          demo_list_devices_def zoneA_def zoneB_def)
  note th = pose_cb_transition [OF iter tr within names run]
  show ?thesis
    by (intro conjI iter tr within names cs run th)
qed

text \<open>
  C3, as stated, fails: on the very first pose, inside A, with the device registry
  unreachable, the state is updated but no ENTER message is published.
\<close>

theorem pose_cb_enter_lost_counterexample:
  "pose_cb down_env (pose_at 2 2) init_state =
     (Inl ServiceException,
      \<lparr>current_zones = [zoneA], previous_zones = [], published = [],
       calls = [GetDeviceInfo 1]\<rparr>)"
  by (simp add: demo_simps)

text \<open>
  C3, amended. On a pose with non-empty membership that arrives while \<open>current_zones\<close>
  is still empty (so that \<open>previous_zones\<close> is empty after the update), no EXIT message
  is published, and whenever the callback returns normally exactly one ENTER message is
  published for every zone of the new membership. The callback does return normally when
  the registry can correlate the zones of the new membership: for every control
  descriptor configured for one of them the device registry answers for the descriptor's
  device with an answer that lists the descriptor's control, and the location registry
  returns its locations and the devices of each.
\<close>

theorem pose_cb_first_pose:
  assumes iter: "\<forall>xs. mset (set_iter e xs) = mset xs"
    and tr: "transformPose e ''map'' (restamped msg) = Inr msg_trans"
    and within: "in_which e (pose_point msg_trans) \<noteq> []"
    and first: "current_zones s = []"
    and run: "pose_cb e msg s = (r, s')"
  shows "previous_zones s' = []
    \<and> current_zones s' = in_which e (pose_point msg_trans)
    \<and> (\<exists>new. published s' = published s @ new
        \<and> (\<forall>t \<in> set new. tr_action t = ENTER)
        \<and> (correlation_succeeds e (current_zones s') \<longrightarrow> r = Inr ())
        \<and> (r = Inr () \<longrightarrow>
             (\<exists>entered. distinct entered \<and> set entered = set (current_zones s')
                \<and> event_keys new = map (\<lambda>z. (ENTER, to_msg z)) entered)))"
proof -
  let ?w = "in_which e (pose_point msg_trans)"
  let ?s1 = "s\<lparr>previous_zones := current_zones s, current_zones := ?w\<rparr>"
  let ?N = "set_iter e (set_diff ?w [])"
  have ct: "check_transition e ?s1 = (r, s')"
    using pose_cb_nonempty [OF tr within, of s] run by simp
  have ne: "current_zones ?s1 \<noteq> []" using within by simp
  have "set (set_iter e (set_diff [] ?w)) = {}"
    using set_iter_perm(1) [OF iter, of "set_diff [] ?w"] by simp
  then have noexit: "set_iter e (set_diff [] ?w) = []" by simp
  have "current_zones s' = ?w \<and> previous_zones s' = [] \<and>
    (\<exists>new k. published s' = published s @ new
        \<and> event_keys new = take k (map (\<lambda>z. (ENTER, to_msg z)) ?N)
        \<and> (r = Inr () \<longrightarrow> event_keys new = map (\<lambda>z. (ENTER, to_msg z)) ?N))"
    using check_transition_effect [OF ne ct] first noexit by simp
  then obtain new k where
    st: "current_zones s' = ?w" "previous_zones s' = []"
    and new: "published s' = published s @ new"
      "event_keys new = take k (map (\<lambda>z. (ENTER, to_msg z)) ?N)"
      "r = Inr () \<longrightarrow> event_keys new = map (\<lambda>z. (ENTER, to_msg z)) ?N"
    by blast
  have setN: "set ?N = set ?w" using set_iter_perm(1) [OF iter] by simp
  have dN: "distinct ?N" using set_iter_perm(2) [OF iter] by simp
  have ok: "correlation_succeeds e ?w \<longrightarrow> r = Inr ()"
  proof
    assume c: "correlation_succeeds e ?w"
    have "correlation_succeeds e ?N"
      using c within setN unfolding correlation_succeeds_def by simp
    then have "correlation_succeeds e
      (set_iter e (set_diff (previous_zones ?s1) (current_zones ?s1))
       @ set_iter e (set_diff (current_zones ?s1) (previous_zones ?s1)))"
      using first noexit by simp
    from check_transition_ok [OF this] ct show "r = Inr ()" by simp
  qed
  have enter: "\<forall>t \<in> set new. tr_action t = ENTER"
  proof
    fix t assume "t \<in> set new"
    then have "(tr_action t, tr_zone t) \<in> set (event_keys new)"
      by (auto simp: event_keys_def)
    then have "(tr_action t, tr_zone t) \<in> set (map (\<lambda>z. (ENTER, to_msg z)) ?N)"
      unfolding new(2) by (rule in_set_takeD)
    then show "tr_action t = ENTER" by auto
  qed
  have "r = Inr () \<longrightarrow> (\<exists>entered. distinct entered \<and> set entered = set ?w
                \<and> event_keys new = map (\<lambda>z. (ENTER, to_msg z)) entered)"
    using new(3) setN dN by blast
  with st new(1) enter ok show ?thesis by auto
qed

theorem pose_cb_first_pose_witness:
  "(\<forall>xs. mset (set_iter demo_env xs) = mset xs)
   \<and> transformPose demo_env ''map'' (restamped (pose_at 7 7)) = Inr (at_map (pose_at 7 7))
   \<and> in_which demo_env (pose_point (at_map (pose_at 7 7))) \<noteq> []
   \<and> current_zones init_state = []
   \<and> correlation_succeeds demo_env [zoneA, zoneB]
   \<and> pose_cb demo_env (pose_at 7 7) init_state = (Inr (), after_enter_state)
   \<and> previous_zones after_enter_state = []
    \<and> current_zones after_enter_state = in_which demo_env (pose_point (at_map (pose_at 7 7)))
    \<and> (\<exists>new. published after_enter_state = published init_state @ new
        \<and> (\<forall>t \<in> set new. tr_action t = ENTER)
        \<and> (correlation_succeeds demo_env (current_zones after_enter_state) \<longrightarrow> (Inr () :: error + unit) = Inr ())
        \<and> ((Inr () :: error + unit) = Inr () \<longrightarrow>
             (\<exists>entered. distinct entered \<and> set entered = set (current_zones after_enter_state)
                \<and> event_keys new = map (\<lambda>z. (ENTER, to_msg z)) entered)))"
proof -
  have iter: "\<forall>xs. mset (set_iter demo_env xs) = mset xs"
    by (simp add: demo_env_def)
  have tr: "transformPose demo_env ''map'' (restamped (pose_at 7 7)) = Inr (at_map (pose_at 7 7))"
    by (simp add: demo_env_def restamped_def pose_at_def at_map_def)
  have w: "in_which demo_env (pose_point (at_map (pose_at 7 7))) = [zoneA, zoneB]"
    by (simp add: demo_env_def demo_in_which_def pose_point_def pose_at_def at_map_def)
  have within: "in_which demo_env (pose_point (at_map (pose_at 7 7))) \<noteq> []"
    unfolding w by simp
  have first: "current_zones init_state = []" by (simp add: init_state_def)
  have run: "pose_cb demo_env (pose_at 7 7) init_state = (Inr (), after_enter_state)"
    by (simp add: demo_simps after_enter_state_def)
  have cs: "correlation_succeeds demo_env [zoneA, zoneB]"
    by (simp add: correlation_succeeds_def device_answers_def locations_answer_def controls_of_def
          demo_env_def demo_controls_def demo_device_info_def demo_locations_def
          demo_list_devices_def zoneA_def zoneB_def)
  note th = pose_cb_first_pose [OF iter tr within first run]
  show ?thesis
    by (intro conjI iter tr within first cs run th)
qed

end
